theory Spec2Isabelle
  imports Main
begin

section \<open>Strings and buffers of the runtime\<close>

text \<open>
  A JavaScript string is a sequence of UTF-16 code units, a Node \<open>Buffer\<close> a sequence of
  bytes (numbers below 256). String literals of the source are written \<open>js ''...''\<close>;
  the double quote is the code unit 34 and the NUL terminator of the wire format is the
  code unit 0.
\<close>

type_synonym jsstring = "nat list"

type_synonym byte = nat

definition js :: "string \<Rightarrow> jsstring" where
  "js s = map of_char s"

definition dquote :: nat where
  "dquote = 34"

text \<open>Template-literal rendering of a non-negative integer (\<open>`${tid}`\<close>).\<close>

fun decimal :: "nat \<Rightarrow> jsstring" where
  "decimal n = (if n < 10 then [48 + n] else decimal (n div 10) @ [48 + n mod 10])"

declare decimal.simps [simp del]

text \<open>
  Template-literal rendering of a \<open>number\<close> that is an integer (\<open>`${line}`\<close>); line
  numbers and context ids are taken to be integers. A number is a double: an integer is
  first rounded to the nearest double, a tie going to the even significand, and from
  \<open>2^1024 - 2^970\<close> on it is \<open>Infinity\<close>. The text of a double has the fewest digits
  that read back as the same double, zeros after them, and the exponent form from 22
  digits on. An integer below \<open>2^53\<close> is its own double and is printed digit by digit.
\<close>

fun bit_length :: "nat \<Rightarrow> nat" where
  "bit_length n = (if n = 0 then 0 else Suc (bit_length (n div 2)))"

declare bit_length.simps [simp del]

definition to_double :: "nat \<Rightarrow> nat option" where
  "to_double n =
     (let e = bit_length n - 53;
          q = n div 2 ^ e;
          r = n mod 2 ^ e;
          q' = (if 2 ^ e < 2 * r \<or> (2 * r = 2 ^ e \<and> odd q) then q + 1 else q)
      in if q' * 2 ^ e < 2 ^ 1024 then Some (q' * 2 ^ e) else None)"

text \<open>
  The candidates with \<open>k\<close> significant digits around the double \<open>x\<close>; of two that read
  back as \<open>x\<close> the closer one is taken, and the even one when they are as close.
\<close>

definition shortest_at :: "nat \<Rightarrow> nat \<Rightarrow> nat option" where
  "shortest_at x k =
     (let p = length (decimal x) - k;
          lo = x div 10 ^ p * 10 ^ p;
          hi = lo + 10 ^ p;
          lo_ok = (to_double lo = Some x);
          hi_ok = (to_double hi = Some x)
      in if lo_ok \<and> hi_ok
         then (if x - lo < hi - x then Some lo
               else if hi - x < x - lo then Some hi
               else if even (x div 10 ^ p) then Some lo else Some hi)
         else if lo_ok then Some lo
         else if hi_ok then Some hi
         else None)"

definition shortest :: "nat \<Rightarrow> nat" where
  "shortest x = (case List.map_filter (shortest_at x) [1 ..< 18] of [] \<Rightarrow> x | v # vs \<Rightarrow> v)"

definition number_text :: "nat \<Rightarrow> jsstring" where
  "number_text v =
     (let ds = decimal v; n = length ds; s = rev (dropWhile (\<lambda>c. c = 48) (rev ds))
      in if n \<le> 21 then ds
         else take 1 s @ (if drop 1 s = [] then [] else 46 # drop 1 s) @ js ''e+'' @ decimal (n - 1))"

definition decimal_int :: "int \<Rightarrow> jsstring" where
  "decimal_int i =
     (if \<bar>i\<bar> < 9007199254740992
      then (if i < 0 then 45 # decimal (nat (- i)) else decimal (nat i))
      else (if i < 0 then [45] else []) @
           (case to_double (nat \<bar>i\<bar>) of
              None \<Rightarrow> js ''Infinity''
            | Some x \<Rightarrow> number_text (shortest x)))"

fun starts_with :: "jsstring \<Rightarrow> jsstring \<Rightarrow> bool" where
  "starts_with s [] = True"
| "starts_with [] (p # ps) = False"
| "starts_with (c # cs) (p # ps) = (c = p \<and> starts_with cs ps)"

text \<open>\<open>String.prototype.includes\<close>: the needle occurs at some offset.\<close>

fun str_includes :: "jsstring \<Rightarrow> jsstring \<Rightarrow> bool" where
  "str_includes [] needle = (needle = [])"
| "str_includes (c # cs) needle = (starts_with (c # cs) needle \<or> str_includes cs needle)"

text \<open>
  \<open>indexOf\<close> of strings (for a one-unit needle) and of arrays; \<open>None\<close> is the
  source's \<open>-1\<close>.
\<close>

fun indexOf :: "'a \<Rightarrow> 'a list \<Rightarrow> nat option" where
  "indexOf c [] = None"
| "indexOf c (x # xs) = (if x = c then Some 0 else map_option Suc (indexOf c xs))"

text \<open>The regular-expression classes \<open>\d\<close>, \<open>\w\<close> and \<open>\s\<close> (no flags).\<close>

definition is_digit :: "nat \<Rightarrow> bool" where
  "is_digit c = (48 \<le> c \<and> c \<le> 57)"

definition is_word :: "nat \<Rightarrow> bool" where
  "is_word c = ((48 \<le> c \<and> c \<le> 57) \<or> (65 \<le> c \<and> c \<le> 90) \<or> c = 95 \<or> (97 \<le> c \<and> c \<le> 122))"

text \<open>
  White space and line terminators of ECMAScript: the set both \<open>\s\<close> and
  \<open>String.prototype.trim\<close> use.
\<close>

definition is_space :: "nat \<Rightarrow> bool" where
  "is_space c = (c \<in> {9, 10, 11, 12, 13, 32, 160, 5760, 8232, 8233, 8239, 8287, 12288, 65279}
      \<or> (8192 \<le> c \<and> c \<le> 8202))"

definition trim :: "jsstring \<Rightarrow> jsstring" where
  "trim s = rev (dropWhile is_space (rev (dropWhile is_space s)))"

subsection \<open>Decoding a Buffer as UTF-8\<close>

text \<open>
  \<open>Buffer.prototype.toString()\<close> decodes UTF-8; every ill-formed sequence becomes U+FFFD
  and decoding resumes at the offending byte. The arguments are the decoder's code point,
  the number of continuation bytes still needed, and the bounds of the next byte.
\<close>

function utf8_decode :: "nat \<Rightarrow> nat \<Rightarrow> nat \<Rightarrow> nat \<Rightarrow> byte list \<Rightarrow> nat list" where
  "utf8_decode cp need lo hi [] = (if need \<noteq> 0 then [65533] else [])"
| "utf8_decode cp need lo hi (b # bs) =
    (if need = 0 then
       (if b \<le> 127 then b # utf8_decode 0 0 128 191 bs
        else if 194 \<le> b \<and> b \<le> 223 then utf8_decode (b mod 32) 1 128 191 bs
        else if 224 \<le> b \<and> b \<le> 239 then
          utf8_decode (b mod 16) 2 (if b = 224 then 160 else 128) (if b = 237 then 159 else 191) bs
        else if 240 \<le> b \<and> b \<le> 244 then
          utf8_decode (b mod 8) 3 (if b = 240 then 144 else 128) (if b = 244 then 143 else 191) bs
        else 65533 # utf8_decode 0 0 128 191 bs)
     else if b < lo \<or> hi < b then 65533 # utf8_decode 0 0 128 191 (b # bs)
     else if need = 1 then (cp * 64 + b mod 64) # utf8_decode 0 0 128 191 bs
     else utf8_decode (cp * 64 + b mod 64) (need - 1) 128 191 bs)"
  by pat_completeness auto

termination
  by (relation "measure (\<lambda>(cp, need, lo, hi, bs). 2 * length bs + (if need = 0 then 0 else 1))") auto

declare utf8_decode.simps [simp del]

text \<open>A code point as UTF-16 code units (a surrogate pair above the BMP).\<close>

definition utf16_units :: "nat \<Rightarrow> jsstring" where
  "utf16_units cp = (if cp < 65536 then [cp]
     else [55296 + (cp - 65536) div 1024, 56320 + (cp - 65536) mod 1024])"

definition toString_utf8 :: "byte list \<Rightarrow> jsstring" where
  "toString_utf8 data = concat (map utf16_units (utf8_decode 0 0 128 191 data))"


section \<open>The DBGp client\<close>

subsection \<open>Data\<close>

text \<open>
  Objects whose keys are computed at run time (\<open>DebugResponse\<close>, and the \<open>any\<close> object
  behind every \<open>Variable\<close>) are lists of key and string, in the order the keys were first
  assigned; nothing below depends on that order. Assigning the key \<open>__proto__\<close> a string
  does not create a property.
\<close>

type_synonym jsobject = "(jsstring \<times> jsstring) list"

fun obj_assign :: "jsstring \<Rightarrow> jsstring \<Rightarrow> jsobject \<Rightarrow> jsobject" where
  "obj_assign k v [] = [(k, v)]"
| "obj_assign k v (p # ps) = (if fst p = k then (k, v) # ps else p # obj_assign k v ps)"

definition obj_set :: "jsstring \<Rightarrow> jsstring \<Rightarrow> jsobject \<Rightarrow> jsobject" where
  "obj_set k v obj = (if k = js ''__proto__'' then obj else obj_assign k v obj)"

definition obj_get :: "jsobject \<Rightarrow> jsstring \<Rightarrow> jsstring option" where
  "obj_get obj k = map_of obj k"

record StackFrame =
  level :: int
  frame_type :: jsstring
  filename :: jsstring
  lineno :: int
  location :: "jsstring option"

record SourceLine =
  line_number :: int
  line_text :: jsstring
  is_error_line :: bool

record ErrorInfo =
  error_type :: jsstring
  message :: jsstring
  file_name :: jsstring
  line :: int
  source_context :: "SourceLine list"
  stack_trace :: "StackFrame list"
  local_variables :: "jsobject list"
  global_variables :: "jsobject list"
  timestamp :: nat

text \<open>A promise is pending until it is settled, once.\<close>

datatype 'a outcome = Pending | Resolved 'a | Rejected jsstring

text \<open>
  The closures of the source, by the call that created them: the timer callbacks of
  \<open>sendCommand\<close> (by transaction id) and of \<open>waitForError\<close> (by the number of the
  call), the arrow function \<open>waitForError\<close> pushes onto \<open>errorWaiters\<close>
  (\<open>Notify\<close>), and the \<open>resolve\<close> function of its promise (\<open>ResolveFn\<close>), which the
  timer callback looks up in \<open>errorWaiters\<close>.
\<close>

datatype timer_callback = CommandTimeout nat | WaitTimeout nat

datatype waiter = Notify nat | ResolveFn nat

datatype emission = EmitInit jsstring | EmitMessage jsstring | EmitErrorCaptured ErrorInfo

text \<open>
  The fields of \<open>DBGpClient\<close> but the listening server and its port (\<open>socket\<close> is
  whether the field holds a socket), the \<open>message\<close> listeners of the emitter the class
  extends (the \<open>handler\<close> closures of \<open>sendCommand\<close>, by transaction id, in registration
  order), and the part of the event loop the client acts on: the clock in milliseconds,
  the armed timers with their due times, the promises handed to callers (those of
  \<open>sendCommand\<close> by transaction id, those of \<open>waitForError\<close> by the number of the call),
  what was written to the socket, and the \<open>init\<close>, \<open>message\<close> and \<open>error_captured\<close>
  events emitted so far.
\<close>

record client =
  socket :: bool
  transactionId :: nat
  buffer :: jsstring
  connected :: bool
  errorQueue :: "ErrorInfo list"
  errorWaiters :: "waiter list"
  initMessage :: "jsstring option"
  messageListeners :: "nat list"
  clock :: nat
  timers :: "(nat \<times> timer_callback) list"
  commandPromise :: "nat \<rightharpoonup> jsobject outcome"
  waitPromise :: "nat \<rightharpoonup> ErrorInfo option outcome"
  nextWait :: nat
  wire :: "jsstring list"
  emitted :: "emission list"

definition errorQueueMaxSize :: nat where
  "errorQueueMaxSize = 100"

definition new_client :: client where
  "new_client = \<lparr> socket = False, transactionId = 1, buffer = [], connected = False,
     errorQueue = [], errorWaiters = [], initMessage = None, messageListeners = [],
     clock = 0, timers = [], commandPromise = Map.empty, waitPromise = Map.empty,
     nextWait = 0, wire = [], emitted = [] \<rparr>"

subsection \<open>Promises, timers and listeners\<close>

definition settle_command :: "nat \<Rightarrow> jsobject outcome \<Rightarrow> client \<Rightarrow> client" where
  "settle_command tid r s =
     (if commandPromise s tid = Some Pending
      then s\<lparr>commandPromise := (commandPromise s)(tid \<mapsto> r)\<rparr> else s)"

definition settle_wait :: "nat \<Rightarrow> ErrorInfo option outcome \<Rightarrow> client \<Rightarrow> client" where
  "settle_wait w r s =
     (if waitPromise s w = Some Pending
      then s\<lparr>waitPromise := (waitPromise s)(w \<mapsto> r)\<rparr> else s)"

definition clearTimeout :: "timer_callback \<Rightarrow> client \<Rightarrow> client" where
  "clearTimeout cb s = s\<lparr>timers := filter (\<lambda>t. snd t \<noteq> cb) (timers s)\<rparr>"

text \<open>\<open>emitter.off\<close> removes the most recently added instance of the listener.\<close>

definition off_message :: "nat \<Rightarrow> client \<Rightarrow> client" where
  "off_message tid s = s\<lparr>messageListeners := rev (remove1 tid (rev (messageListeners s)))\<rparr>"

text \<open>\<open>setTimeout\<close> arms a delay outside 1 .. 2147483647 ms as 1 ms.\<close>

definition setTimeout_delay :: "int \<Rightarrow> nat" where
  "setTimeout_delay ms = (if ms < 1 \<or> 2147483647 < ms then 1 else nat ms)"

subsection \<open>parseResponse\<close>

text \<open>
  \<open>xml.match(/<response([^>]*)>/)\<close>: the first offset where \<open><response\<close> is followed,
  after units other than \<open>></\<close>, by a \<open>></\<close>; the result is group 1.
\<close>

fun match_response :: "jsstring \<Rightarrow> jsstring option" where
  "match_response [] = None"
| "match_response (c # cs) =
    (if starts_with (c # cs) (js ''<response'') \<and> indexOf 62 (drop 9 (c # cs)) \<noteq> None
     then Some (takeWhile (\<lambda>x. x \<noteq> 62) (drop 9 (c # cs)))
     else match_response cs)"

text \<open>
  The loop over \<open>/(\w+)="([^"]*)"/g\<close>: the successive matches (group 1, group 2), each
  search starting where the last match ended.
\<close>

function scan_attrs :: "jsstring \<Rightarrow> (jsstring \<times> jsstring) list" where
  "scan_attrs [] = []"
| "scan_attrs (c # cs) =
    (if takeWhile is_word (c # cs) \<noteq> []
        \<and> starts_with (dropWhile is_word (c # cs)) [61, dquote]
        \<and> indexOf dquote (drop 2 (dropWhile is_word (c # cs))) \<noteq> None
     then (takeWhile is_word (c # cs),
           takeWhile (\<lambda>x. x \<noteq> dquote) (drop 2 (dropWhile is_word (c # cs))))
          # scan_attrs (tl (dropWhile (\<lambda>x. x \<noteq> dquote) (drop 2 (dropWhile is_word (c # cs)))))
     else scan_attrs cs)"
  by pat_completeness auto

termination
proof (relation "measure length")
  show "wf (measure length)"
    by simp
next
  fix c :: nat and cs :: jsstring
  assume m: "takeWhile is_word (c # cs) \<noteq> []
        \<and> starts_with (dropWhile is_word (c # cs)) [61, dquote]
        \<and> indexOf dquote (drop 2 (dropWhile is_word (c # cs))) \<noteq> None"
  let ?r = "dropWhile is_word (c # cs)"
  from m have "is_word c"
    by (auto split: if_splits)
  then have "length ?r \<le> length cs"
    by (simp add: length_dropWhile_le)
  moreover have "length (dropWhile (\<lambda>x. x \<noteq> dquote) (drop 2 ?r)) \<le> length (drop 2 ?r)"
    by (rule length_dropWhile_le)
  ultimately have "length (tl (dropWhile (\<lambda>x. x \<noteq> dquote) (drop 2 ?r))) < length (c # cs)"
    by simp
  then show "(tl (dropWhile (\<lambda>x. x \<noteq> dquote) (drop 2 ?r)), c # cs) \<in> measure length"
    by simp
next
  fix c :: nat and cs :: jsstring
  show "(cs, c # cs) \<in> measure length"
    by simp
qed

declare scan_attrs.simps [simp del]

definition parse_attrs :: "jsstring \<Rightarrow> jsobject \<Rightarrow> jsobject" where
  "parse_attrs attrs obj = fold (\<lambda>(k, v). obj_set k v) (scan_attrs attrs) obj"

definition parseResponse :: "jsstring \<Rightarrow> jsobject" where
  "parseResponse xml =
     (let response = [(js ''command'', []), (js ''transaction_id'', [])];
          response = (case match_response xml of
                        Some attrs \<Rightarrow> parse_attrs attrs response
                      | None \<Rightarrow> response)
      in obj_set (js ''_raw'') xml response)"

subsection \<open>handleData and the message listeners\<close>

definition transaction_marker :: "nat \<Rightarrow> jsstring" where
  "transaction_marker tid = js ''transaction_id='' @ [dquote] @ decimal tid @ [dquote]"

text \<open>The \<open>handler\<close> closure of the \<open>sendCommand\<close> call that got \<open>tid\<close>.\<close>

definition handler :: "nat \<Rightarrow> jsstring \<Rightarrow> client \<Rightarrow> client" where
  "handler tid msg s =
     (if str_includes msg (transaction_marker tid)
      then settle_command tid (Resolved (parseResponse msg))
             (off_message tid (clearTimeout (CommandTimeout tid) s))
      else s)"

text \<open>\<open>emit\<close> calls the listeners registered when it starts, in registration order.\<close>

definition emit_message :: "jsstring \<Rightarrow> client \<Rightarrow> client" where
  "emit_message msg s =
     fold (\<lambda>tid. handler tid msg) (messageListeners s) (s\<lparr>emitted := emitted s @ [EmitMessage msg]\<rparr>)"

definition emit_init :: "jsstring \<Rightarrow> client \<Rightarrow> client" where
  "emit_init msg s = s\<lparr>emitted := emitted s @ [EmitInit msg]\<rparr>"

text \<open>\<open>message.match(/^\d+$/)\<close>: the frame is a length header.\<close>

definition is_length_header :: "jsstring \<Rightarrow> bool" where
  "is_length_header msg = (msg \<noteq> [] \<and> list_all is_digit msg)"

text \<open>The \<open>while (true)\<close> loop of \<open>handleData\<close>, one frame per iteration.\<close>

function handle_frames :: "client \<Rightarrow> client" where
  "handle_frames s =
     (case indexOf 0 (buffer s) of
        None \<Rightarrow> s
      | Some nullIdx \<Rightarrow>
          (if is_length_header (take nullIdx (buffer s))
           then handle_frames (s\<lparr>buffer := drop (nullIdx + 1) (buffer s)\<rparr>)
           else if str_includes (take nullIdx (buffer s)) (js ''<init '')
           then handle_frames (emit_init (take nullIdx (buffer s))
                  (s\<lparr>buffer := drop (nullIdx + 1) (buffer s),
                     initMessage := Some (take nullIdx (buffer s))\<rparr>))
           else handle_frames (emit_message (take nullIdx (buffer s))
                  (s\<lparr>buffer := drop (nullIdx + 1) (buffer s)\<rparr>))))"
  by pat_completeness auto

termination
proof -
  have h: "buffer (handler tid msg s) = buffer s" for tid msg s
    by (simp add: handler_def settle_command_def off_message_def clearTimeout_def)
  have f: "buffer (fold (\<lambda>tid. handler tid msg) tids s) = buffer s" for msg tids s
    by (induction tids arbitrary: s) (simp_all add: h)
  have lt: "indexOf c xs = Some i \<Longrightarrow> i < length xs" for c :: nat and xs i
    by (induction xs arbitrary: i) (auto split: if_splits)
  show ?thesis
    by (relation "measure (\<lambda>s. length (buffer s))")
       (auto dest: lt simp: emit_message_def emit_init_def f)
qed

declare handle_frames.simps [simp del]

definition handleData :: "byte list \<Rightarrow> client \<Rightarrow> client" where
  "handleData data s = handle_frames (s\<lparr>buffer := buffer s @ toString_utf8 data\<rparr>)"


subsection \<open>sendCommand\<close>

text \<open>
  The result is the rejection of the returned promise (\<open>Inl\<close>, thrown before anything
  else happens) or the transaction id under which the promise is pending (\<open>Inr\<close>).
\<close>

definition not_connected :: jsstring where
  "not_connected = js ''Not connected to AutoHotkey debugger''"

definition sendCommand :: "jsstring \<Rightarrow> client \<Rightarrow> (jsstring + nat) \<times> client" where
  "sendCommand command s =
     (if \<not> socket s \<or> \<not> connected s then (Inl not_connected, s)
      else (Inr (transactionId s),
            s\<lparr>transactionId := transactionId s + 1,
              commandPromise := (commandPromise s)(transactionId s \<mapsto> Pending),
              timers := timers s @ [(clock s + 10000, CommandTimeout (transactionId s))],
              messageListeners := messageListeners s @ [transactionId s],
              wire := wire s @ [command @ js '' -i '' @ decimal (transactionId s) @ [0]]\<rparr>))"

subsection \<open>The error queue\<close>

definition invoke_waiter :: "waiter \<Rightarrow> ErrorInfo \<Rightarrow> client \<Rightarrow> client" where
  "invoke_waiter f error s =
     (case f of
        Notify w \<Rightarrow> settle_wait w (Resolved (Some error)) (clearTimeout (WaitTimeout w) s)
      | ResolveFn w \<Rightarrow> settle_wait w (Resolved (Some error)) s)"

definition queueError :: "ErrorInfo \<Rightarrow> client \<Rightarrow> client" where
  "queueError error s =
     (let s1 = s\<lparr>errorQueue := errorQueue s @ [error]\<rparr>;
          s2 = (if length (errorQueue s1) > errorQueueMaxSize
                then s1\<lparr>errorQueue := tl (errorQueue s1)\<rparr> else s1);
          s3 = (case errorWaiters s2 of
                  [] \<Rightarrow> s2
                | f # fs \<Rightarrow> invoke_waiter f error (s2\<lparr>errorWaiters := fs\<rparr>))
      in s3\<lparr>emitted := emitted s3 @ [EmitErrorCaptured error]\<rparr>)"

text \<open>
  The result is the value the promise is resolved with at once (\<open>Inl\<close>) or the number of
  the pending promise (\<open>Inr\<close>).
\<close>

definition waitForError :: "int \<Rightarrow> client \<Rightarrow> (ErrorInfo option + nat) \<times> client" where
  "waitForError timeoutMs s =
     (case errorQueue s of
        e # es \<Rightarrow> (Inl (Some e), s\<lparr>errorQueue := es\<rparr>)
      | [] \<Rightarrow>
          (Inr (nextWait s),
           s\<lparr>nextWait := nextWait s + 1,
             waitPromise := (waitPromise s)(nextWait s \<mapsto> Pending),
             timers := timers s @ [(clock s + setTimeout_delay timeoutMs, WaitTimeout (nextWait s))],
             errorWaiters := errorWaiters s @ [Notify (nextWait s)]\<rparr>))"

definition getQueuedErrors :: "client \<Rightarrow> ErrorInfo list" where
  "getQueuedErrors s = errorQueue s"

definition clearErrorQueue :: "client \<Rightarrow> client" where
  "clearErrorQueue s = s\<lparr>errorQueue := []\<rparr>"

subsection \<open>Timers\<close>

text \<open>The callbacks given to \<open>setTimeout\<close> by \<open>sendCommand\<close> and \<open>waitForError\<close>.\<close>

definition fire :: "timer_callback \<Rightarrow> client \<Rightarrow> client" where
  "fire cb s =
     (case cb of
        CommandTimeout tid \<Rightarrow>
          settle_command tid (Rejected (js ''Command timeout'')) (off_message tid s)
      | WaitTimeout w \<Rightarrow>
          settle_wait w (Resolved None)
            (case indexOf (ResolveFn w) (errorWaiters s) of
               Some idx \<Rightarrow> s\<lparr>errorWaiters := take idx (errorWaiters s) @ drop (idx + 1) (errorWaiters s)\<rparr>
             | None \<Rightarrow> s))"

text \<open>The armed timer that is due and runs next: the earliest due time, the first armed.\<close>

definition next_due :: "client \<Rightarrow> (nat \<times> timer_callback) option" where
  "next_due s =
     (case filter (\<lambda>t. fst t \<le> clock s) (timers s) of
        [] \<Rightarrow> None
      | t # ts \<Rightarrow> Some (fold (\<lambda>x best. if fst x < fst best then x else best) ts t))"

function run_timers :: "client \<Rightarrow> client" where
  "run_timers s =
     (case next_due s of
        None \<Rightarrow> s
      | Some t \<Rightarrow> run_timers (fire (snd t) (s\<lparr>timers := remove1 t (timers s)\<rparr>)))"
  by pat_completeness auto

termination
proof (relation "measure (\<lambda>s. length (timers s))")
  show "wf (measure (\<lambda>s. length (timers s)))"
    by simp
next
  fix s :: client and t
  assume d: "next_due s = Some t"
  have e: "fold (\<lambda>x best. if fst x < fst best then x else best) ts u \<in> set (u # ts)"
    for ts and u :: "nat \<times> timer_callback"
    by (induction ts arbitrary: u) (simp, force)
  from d obtain u us where f: "filter (\<lambda>t. fst t \<le> clock s) (timers s) = u # us"
    by (auto simp: next_due_def split: list.splits)
  with d have "t \<in> set (u # us)"
    using e [of us u] by (simp add: next_due_def)
  then have "t \<in> set (filter (\<lambda>t. fst t \<le> clock s) (timers s))"
    by (simp only: f)
  then have "t \<in> set (timers s)"
    by simp
  then have "length (remove1 t (timers s)) < length (timers s)"
    using length_pos_if_in_set [of t "timers s"] by (simp add: length_remove1)
  moreover have "timers (fire cb s') = timers s'" for cb s'
    by (simp add: fire_def settle_command_def settle_wait_def off_message_def
        split: timer_callback.split option.split)
  ultimately show "(fire (snd t) (s\<lparr>timers := remove1 t (timers s)\<rparr>), s) \<in> measure (\<lambda>s. length (timers s))"
    by simp
qed

declare run_timers.simps [simp del]

subsection \<open>Events\<close>

text \<open>
  What happens to a client: the socket callbacks of \<open>listen\<close> (a connection, data, the
  end of the connection), \<open>close\<close>, the passing of time, and calls of its methods.
\<close>

datatype event =
    Connect
  | Receive "byte list"
  | SocketEnd
  | Close
  | Elapse nat
  | Send jsstring
  | QueueError ErrorInfo
  | WaitForError int
  | ClearErrorQueue

definition step :: "event \<Rightarrow> client \<Rightarrow> client" where
  "step ev s =
     (case ev of
        Connect \<Rightarrow> s\<lparr>socket := True, connected := True\<rparr>
      | Receive data \<Rightarrow> handleData data s
      | SocketEnd \<Rightarrow> s\<lparr>connected := False, socket := False\<rparr>
      | Close \<Rightarrow> s\<lparr>socket := False, connected := False\<rparr>
      | Elapse ms \<Rightarrow> run_timers (s\<lparr>clock := clock s + ms\<rparr>)
      | Send command \<Rightarrow> snd (sendCommand command s)
      | QueueError error \<Rightarrow> queueError error s
      | WaitForError timeoutMs \<Rightarrow> snd (waitForError timeoutMs s)
      | ClearErrorQueue \<Rightarrow> clearErrorQueue s)"

definition run :: "event list \<Rightarrow> client \<Rightarrow> client" where
  "run evs s = fold step evs s"


section \<open>Base64 and the command methods\<close>

subsection \<open>Buffer.from and base64\<close>

text \<open>
  \<open>Buffer.from(string)\<close> encodes as UTF-8: a surrogate pair is one code point of four
  bytes, a lone surrogate is encoded as U+FFFD.
\<close>

fun utf8_encode :: "jsstring \<Rightarrow> byte list" where
  "utf8_encode [] = []"
| "utf8_encode [c] =
     (if c < 128 then [c]
      else if c < 2048 then [192 + c div 64, 128 + c mod 64]
      else if 55296 \<le> c \<and> c \<le> 57343 then [239, 191, 189]
      else [224 + c div 4096, 128 + (c div 64) mod 64, 128 + c mod 64])"
| "utf8_encode (c # d # cs) =
     (if c < 128 then c # utf8_encode (d # cs)
      else if c < 2048 then [192 + c div 64, 128 + c mod 64] @ utf8_encode (d # cs)
      else if 55296 \<le> c \<and> c \<le> 56319 \<and> 56320 \<le> d \<and> d \<le> 57343 then
        (let cp = 65536 + (c - 55296) * 1024 + (d - 56320)
         in [240 + cp div 262144, 128 + cp div 4096 mod 64, 128 + cp div 64 mod 64, 128 + cp mod 64])
        @ utf8_encode cs
      else if 55296 \<le> c \<and> c \<le> 57343 then [239, 191, 189] @ utf8_encode (d # cs)
      else [224 + c div 4096, 128 + (c div 64) mod 64, 128 + c mod 64] @ utf8_encode (d # cs))"

definition base64_char :: "nat \<Rightarrow> nat" where
  "base64_char n =
     (if n < 26 then 65 + n else if n < 52 then 71 + n else if n < 62 then n - 4
      else if n = 62 then 43 else 47)"

fun base64_encode :: "byte list \<Rightarrow> jsstring" where
  "base64_encode [] = []"
| "base64_encode [a] = [base64_char (a div 4), base64_char (a mod 4 * 16), 61, 61]"
| "base64_encode [a, b] =
     [base64_char (a div 4), base64_char (a mod 4 * 16 + b div 16), base64_char (b mod 16 * 4), 61]"
| "base64_encode (a # b # c # bs) =
     [base64_char (a div 4), base64_char (a mod 4 * 16 + b div 16),
      base64_char (b mod 16 * 4 + c div 64), base64_char (c mod 64)] @ base64_encode bs"

text \<open>\<open>Buffer.from(text).toString('base64')\<close>.\<close>

definition to_base64 :: "jsstring \<Rightarrow> jsstring" where
  "to_base64 text = base64_encode (utf8_encode text)"

text \<open>
  \<open>Buffer.from(text, 'base64')\<close> never throws: the decoder reads the low byte of each
  code unit, skips every unit that is not a digit of the base64 or base64url alphabet,
  stops at the first \<open>=\<close>, and drops the bits of an incomplete last group.
\<close>

definition unbase64 :: "nat \<Rightarrow> nat option" where
  "unbase64 c =
     (if 65 \<le> c \<and> c \<le> 90 then Some (c - 65)
      else if 97 \<le> c \<and> c \<le> 122 then Some (c - 71)
      else if 48 \<le> c \<and> c \<le> 57 then Some (c + 4)
      else if c = 43 \<or> c = 45 then Some 62
      else if c = 47 \<or> c = 95 then Some 63
      else None)"

fun sextets_bytes :: "nat list \<Rightarrow> byte list" where
  "sextets_bytes (a # b # c # d # xs) =
     [a * 4 + b div 16, b mod 16 * 16 + c div 4, c mod 4 * 64 + d] @ sextets_bytes xs"
| "sextets_bytes [a, b, c] = [a * 4 + b div 16, b mod 16 * 16 + c div 4]"
| "sextets_bytes [a, b] = [a * 4 + b div 16]"
| "sextets_bytes xs = []"

definition base64_decode :: "jsstring \<Rightarrow> byte list" where
  "base64_decode text =
     sextets_bytes (List.map_filter unbase64
       (takeWhile (\<lambda>c. c \<noteq> 61) (map (\<lambda>c. c mod 256) text)))"

text \<open>
  \<open>Buffer.from(text, 'base64').toString('utf-8')\<close> as the \<open>try\<close> block sees it:
  \<open>Inl\<close> would be an exception, and there is none.
\<close>

definition decode_base64_text :: "jsstring \<Rightarrow> jsstring + jsstring" where
  "decode_base64_text text = Inr (toString_utf8 (base64_decode text))"

subsection \<open>parseProperties\<close>

text \<open>
  The loop over \<open>/<property([^>]*)>([^<]*)<\/property>/g\<close>: the successive matches
  (group 1, group 2).
\<close>

function scan_properties :: "jsstring \<Rightarrow> (jsstring \<times> jsstring) list" where
  "scan_properties [] = []"
| "scan_properties (c # cs) =
    (if starts_with (c # cs) (js ''<property'')
        \<and> starts_with (dropWhile (\<lambda>x. x \<noteq> 62) (drop 9 (c # cs))) [62]
        \<and> starts_with (dropWhile (\<lambda>x. x \<noteq> 60) (tl (dropWhile (\<lambda>x. x \<noteq> 62) (drop 9 (c # cs)))))
             (js ''</property>'')
     then (takeWhile (\<lambda>x. x \<noteq> 62) (drop 9 (c # cs)),
           takeWhile (\<lambda>x. x \<noteq> 60) (tl (dropWhile (\<lambda>x. x \<noteq> 62) (drop 9 (c # cs)))))
          # scan_properties
              (drop 11 (dropWhile (\<lambda>x. x \<noteq> 60) (tl (dropWhile (\<lambda>x. x \<noteq> 62) (drop 9 (c # cs))))))
     else scan_properties cs)"
  by pat_completeness auto

termination
proof (relation "measure length")
  show "wf (measure length)"
    by simp
next
  fix c :: nat and cs :: jsstring
  let ?a = "dropWhile (\<lambda>x. x \<noteq> 62) (drop 9 (c # cs))"
  let ?b = "dropWhile (\<lambda>x. x \<noteq> 60) (tl ?a)"
  have "length ?b \<le> length (tl ?a)"
    by (rule length_dropWhile_le)
  moreover have "length ?a \<le> length (drop 9 (c # cs))"
    by (rule length_dropWhile_le)
  ultimately have "length (drop 11 ?b) < length (c # cs)"
    by simp
  then show "(drop 11 ?b, c # cs) \<in> measure length"
    by simp
next
  fix c :: nat and cs :: jsstring
  show "(cs, c # cs) \<in> measure length"
    by simp
qed

declare scan_properties.simps [simp del]

text \<open>The body of the loop: the object pushed for one match.\<close>

definition property_variable :: "jsstring \<Rightarrow> jsstring \<Rightarrow> jsobject" where
  "property_variable attrs text =
     (let variable = parse_attrs attrs []
      in if text \<noteq> [] then
           (case decode_base64_text text of
              Inr decoded \<Rightarrow> obj_set (js ''value'') decoded variable
            | Inl exn \<Rightarrow> obj_set (js ''value'') text variable)
         else variable)"

definition parseProperties :: "jsstring \<Rightarrow> jsobject list" where
  "parseProperties xml = map (\<lambda>(attrs, text). property_variable attrs text) (scan_properties xml)"

subsection \<open>The command methods\<close>

datatype command_method =
    Run
  | StepInto
  | StepOver
  | StepOut
  | Stop
  | GetStatus
  | SetBreakpoint jsstring int "jsstring option"
  | RemoveBreakpoint jsstring
  | ListBreakpoints
  | GetVariables int
  | EvaluateExpression jsstring
  | GetStackTrace

text \<open>The argument each method gives \<open>sendCommand\<close>.\<close>

definition command_text :: "command_method \<Rightarrow> jsstring" where
  "command_text m =
     (case m of
        Run \<Rightarrow> js ''run''
      | StepInto \<Rightarrow> js ''step_into''
      | StepOver \<Rightarrow> js ''step_over''
      | StepOut \<Rightarrow> js ''step_out''
      | Stop \<Rightarrow> js ''stop''
      | GetStatus \<Rightarrow> js ''status''
      | SetBreakpoint path n condition \<Rightarrow>
          js ''breakpoint_set -t line -f file:///'' @ map (\<lambda>c. if c = 92 then 47 else c) path
            @ js '' -n '' @ decimal_int n
            @ (case condition of
                 None \<Rightarrow> []
               | Some cond \<Rightarrow> if cond = [] then [] else js '' -- '' @ to_base64 cond)
      | RemoveBreakpoint bp \<Rightarrow> js ''breakpoint_remove -d '' @ bp
      | ListBreakpoints \<Rightarrow> js ''breakpoint_list''
      | GetVariables contextId \<Rightarrow> js ''context_get -c '' @ decimal_int contextId
      | EvaluateExpression expression \<Rightarrow> js ''eval -- '' @ to_base64 expression
      | GetStackTrace \<Rightarrow> js ''stack_get'')"

text \<open>
  Every method awaits \<open>sendCommand\<close> first and catches nothing: its promise is rejected
  as that of \<open>sendCommand\<close> is, or waits for it.
\<close>

definition call_method :: "command_method \<Rightarrow> client \<Rightarrow> (jsstring + nat) \<times> client" where
  "call_method m s = sendCommand (command_text m) s"


section \<open>The apply-fix action of the debug tool\<close>

text \<open>
  The file collaborator: reading a path gives its text or fails with an error (\<open>Inl\<close>,
  the error as the template literal renders it); writing a path may fail as well.
\<close>

record filesystem =
  contents :: "jsstring \<Rightarrow> jsstring + jsstring"
  write_error :: "jsstring \<Rightarrow> jsstring option"

definition readFile :: "jsstring \<Rightarrow> filesystem \<Rightarrow> jsstring + jsstring" where
  "readFile path fs = contents fs path"

definition writeFile :: "jsstring \<Rightarrow> jsstring \<Rightarrow> filesystem \<Rightarrow> jsstring + filesystem" where
  "writeFile path data fs =
     (case write_error fs path of
        Some err \<Rightarrow> Inl err
      | None \<Rightarrow> Inr (fs\<lparr>contents := (contents fs)(path := Inr data)\<rparr>))"

text \<open>\<open>content.split(/\r?\n/)\<close> and \<open>lines.join('\n')\<close>.\<close>

fun split_lines :: "jsstring \<Rightarrow> jsstring list" where
  "split_lines [] = [[]]"
| "split_lines [c] = (if c = 10 then [[], []] else [[c]])"
| "split_lines (c # d # cs) =
     (if c = 10 then [] # split_lines (d # cs)
      else if c = 13 \<and> d = 10 then [] # split_lines cs
      else (case split_lines (d # cs) of
              l # ls \<Rightarrow> (c # l) # ls
            | [] \<Rightarrow> [[c]]))"

fun join_lines :: "jsstring list \<Rightarrow> jsstring" where
  "join_lines [] = []"
| "join_lines [l] = l"
| "join_lines (l # m # ls) = l @ [10] @ join_lines (m # ls)"

text \<open>The tool's responses: the text of the single content item, and \<open>isError\<close>.\<close>

record response =
  response_text :: jsstring
  isError :: bool

definition successResponse :: "jsstring \<Rightarrow> response" where
  "successResponse msg = \<lparr> response_text = msg, isError = False \<rparr>"

definition errorResponse :: "jsstring \<Rightarrow> response" where
  "errorResponse msg = \<lparr> response_text = js ''Error: '' @ msg, isError = True \<rparr>"

definition mismatch_message :: "int \<Rightarrow> jsstring \<Rightarrow> jsstring \<Rightarrow> jsstring" where
  "mismatch_message n original actualLine =
     js ''Line mismatch at '' @ decimal_int n @ js ''.'' @ [10]
       @ js ''Expected: '' @ [dquote] @ trim original @ [dquote] @ [10]
       @ js ''Found: '' @ [dquote] @ trim actualLine @ [dquote]"

text \<open>
  \<open>applyFix\<close> with all four arguments given and an integer line number. The result is
  the response and the file system afterwards.
\<close>

definition applyFix ::
    "jsstring \<Rightarrow> int \<Rightarrow> jsstring \<Rightarrow> jsstring \<Rightarrow> filesystem \<Rightarrow> response \<times> filesystem" where
  "applyFix path n original replacement fs =
     (case readFile path fs of
        Inl err \<Rightarrow> (errorResponse (js ''Failed to apply fix: '' @ err), fs)
      | Inr content \<Rightarrow>
          (let lines = split_lines content in
           if n < 1 \<or> n > int (length lines) then
             (errorResponse (js ''Line '' @ decimal_int n @ js '' is out of range (file has ''
                @ decimal (length lines) @ js '' lines)''), fs)
           else
             (let actualLine = lines ! nat (n - 1) in
              if trim actualLine \<noteq> trim original then
                (errorResponse (mismatch_message n original actualLine), fs)
              else
                (let indent = takeWhile is_space actualLine;
                     lines = lines[nat (n - 1) := indent @ trim replacement]
                 in case writeFile path (join_lines lines) fs of
                      Inl err \<Rightarrow> (errorResponse (js ''Failed to apply fix: '' @ err), fs)
                    | Inr fs' \<Rightarrow>
                        (successResponse (js ''Fix applied at '' @ path @ js '':'' @ decimal_int n @ [10]
                           @ js ''- Old: '' @ trim original @ [10]
                           @ js ''+ New: '' @ trim replacement), fs')))))"

section \<open>Scenarios and observations\<close>

text \<open>
  The vocabulary of the properties below: commands issued together, responses delivered
  as message events, what a pending command looks like in the state, and the time a list
  of events takes.
\<close>

text \<open>The command \<open>tid\<close> has its listener registered and its promise pending.\<close>

definition awaiting :: "nat \<Rightarrow> client \<Rightarrow> bool" where
  "awaiting tid s = (tid \<in> set (messageListeners s) \<and> commandPromise s tid = Some Pending)"

text \<open>Responses delivered in some order: each is emitted as a message.\<close>

definition deliver :: "jsstring list \<Rightarrow> client \<Rightarrow> client" where
  "deliver msgs s = fold emit_message msgs s"

text \<open>Commands issued one after the other, nothing happening in between.\<close>

fun send_all :: "jsstring list \<Rightarrow> client \<Rightarrow> (jsstring + nat) list \<times> client" where
  "send_all [] s = ([], s)"
| "send_all (c # cs) s =
     (let (r, s1) = sendCommand c s; (rs, s2) = send_all cs s1 in (r # rs, s2))"

text \<open>The emission is a message event whose text contains the marker of \<open>tid\<close>.\<close>

definition is_marked :: "nat \<Rightarrow> emission \<Rightarrow> bool" where
  "is_marked tid e = (case e of EmitMessage m \<Rightarrow> str_includes m (transaction_marker tid) | _ \<Rightarrow> False)"

text \<open>
  A message that contains the marker of \<open>tid\<close> was emitted after the first \<open>n\<close>
  emissions.
\<close>

definition answered :: "nat \<Rightarrow> nat \<Rightarrow> client \<Rightarrow> bool" where
  "answered tid n s = list_ex (is_marked tid) (drop n (emitted s))"

text \<open>The milliseconds that pass during a list of events.\<close>

definition elapsed :: "event list \<Rightarrow> nat" where
  "elapsed evs = sum_list (map (\<lambda>ev. case ev of Elapse ms \<Rightarrow> ms | _ \<Rightarrow> 0) evs)"

text \<open>
  The three states of a command that was sent: \<open>live\<close> (pending, with its one listener
  and its one timer due at \<open>d\<close>), \<open>expired\<close> (rejected by the timeout, listener and timer
  gone), or answered. \<open>tracked\<close> says the command is in one of them.
\<close>

definition live :: "nat \<Rightarrow> nat \<Rightarrow> client \<Rightarrow> bool" where
  "live tid d s =
     (commandPromise s tid = Some Pending
      \<and> filter (\<lambda>t. t = tid) (messageListeners s) = [tid]
      \<and> filter (\<lambda>x. snd x = CommandTimeout tid) (timers s) = [(d, CommandTimeout tid)]
      \<and> tid < transactionId s)"

definition expired :: "nat \<Rightarrow> client \<Rightarrow> bool" where
  "expired tid s =
     (commandPromise s tid = Some (Rejected (js ''Command timeout''))
      \<and> tid \<notin> set (messageListeners s)
      \<and> filter (\<lambda>x. snd x = CommandTimeout tid) (timers s) = []
      \<and> tid < transactionId s)"

definition tracked :: "nat \<Rightarrow> nat \<Rightarrow> nat \<Rightarrow> client \<Rightarrow> bool" where
  "tracked tid d n s =
     (n \<le> length (emitted s)
      \<and> (answered tid n s \<or> live tid d s \<or> (expired tid s \<and> d \<le> clock s)))"

text \<open>
  Between two events no armed timer is due (\<open>rested\<close>), and every listener and every
  command timer belongs to a transaction id that was already handed out (\<open>fresh\<close>).
\<close>

definition rested :: "client \<Rightarrow> bool" where
  "rested s = list_all (\<lambda>x. clock s < fst x) (timers s)"

definition timer_below :: "nat \<Rightarrow> nat \<times> timer_callback \<Rightarrow> bool" where
  "timer_below n x = (case snd x of CommandTimeout t \<Rightarrow> t < n | WaitTimeout w \<Rightarrow> True)"

definition fresh :: "client \<Rightarrow> bool" where
  "fresh s = (list_all (\<lambda>t. t < transactionId s) (messageListeners s)
      \<and> list_all (timer_below (transactionId s)) (timers s))"

text \<open>No \<open>t\<close> followed by \<open>r\<close> anywhere in the text.\<close>

fun no_tr :: "jsstring \<Rightarrow> bool" where
  "no_tr [] = True"
| "no_tr [c] = True"
| "no_tr (c # d # cs) = (\<not> (c = 116 \<and> d = 114) \<and> no_tr (d # cs))"

text \<open>
  What the fix guard compares, and what a successful fix writes: the line is in range and
  equal to the expected original once both are trimmed; the lines of the old content,
  the target replaced by its own leading white space and the trimmed replacement, joined
  by line feeds.
\<close>

definition fix_matches :: "jsstring \<Rightarrow> int \<Rightarrow> jsstring \<Rightarrow> bool" where
  "fix_matches content n original =
     (1 \<le> n \<and> n \<le> int (length (split_lines content))
      \<and> trim (split_lines content ! nat (n - 1)) = trim original)"

definition fixed_content :: "jsstring \<Rightarrow> int \<Rightarrow> jsstring \<Rightarrow> jsstring" where
  "fixed_content content n replacement =
     join_lines ((split_lines content)
       [nat (n - 1) := takeWhile is_space (split_lines content ! nat (n - 1)) @ trim replacement])"

text \<open>Sample data: a string in double quotes, and a response as the engine sends it.\<close>

definition quoted :: "jsstring \<Rightarrow> jsstring" where
  "quoted text = [dquote] @ text @ [dquote]"

definition response_xml :: "nat \<Rightarrow> jsstring" where
  "response_xml tid = js ''<response command='' @ quoted (js ''run'') @ js '' transaction_id=''
     @ quoted (decimal tid) @ js '' status='' @ quoted (js ''break'') @ js ''/>''"

text \<open>
  A response to the command \<open>tid\<close> whose property value holds the text
  \<open>transaction_id="other"\<close>, as an evaluated string can.
\<close>

definition echo_response :: "nat \<Rightarrow> nat \<Rightarrow> jsstring" where
  "echo_response tid other = js ''<response command='' @ quoted (js ''eval'') @ js '' transaction_id=''
     @ quoted (decimal tid) @ js ''><property>transaction_id='' @ quoted (decimal other)
     @ js ''</property></response>''"

definition sample_error :: "nat \<Rightarrow> ErrorInfo" where
  "sample_error n = \<lparr> error_type = js ''Error'', message = js ''boom'', file_name = js ''a.ahk'',
     line = int n, source_context = [], stack_trace = [], local_variables = [],
     global_variables = [], timestamp = 0 \<rparr>"

text \<open>A file system with one file, three lines, the first ended by CR LF.\<close>

definition sample_fs :: filesystem where
  "sample_fs = \<lparr> contents = (\<lambda>p. if p = js ''a.ahk''
        then Inr (js ''x := 1'' @ [13, 10] @ js ''    MsgBox(1)'' @ [10] @ js ''return'')
        else Inl (js ''Error: ENOENT'')),
     write_error = (\<lambda>p. None) \<rparr>"

section \<open>Properties of the client\<close>

subsection \<open>Evaluating the model on concrete inputs\<close>

lemmas string_eval = js_def dquote_def quoted_def decimal.simps decimal_int_def is_digit_def
  is_word_def is_space_def trim_def utf8_decode.simps utf16_units_def toString_utf8_def
  is_length_header_def transaction_marker_def response_xml_def

lemmas client_eval = new_client_def step_def run_def handleData_def handle_frames.simps
  emit_message_def emit_init_def handler_def settle_command_def settle_wait_def clearTimeout_def
  off_message_def setTimeout_delay_def sendCommand_def not_connected_def invoke_waiter_def
  queueError_def waitForError_def getQueuedErrors_def clearErrorQueue_def fire_def next_due_def
  run_timers.simps errorQueueMaxSize_def

subsection \<open>Invariants of the two loops\<close>

text \<open>
  What every step of \<open>handle_frames\<close> (of \<open>run_timers\<close>) preserves holds when the
  loop ends.
\<close>

lemma buffer_handler [simp]: "buffer (handler tid msg s) = buffer s"
  by (simp add: handler_def settle_command_def off_message_def clearTimeout_def)

lemma buffer_fold_handler [simp]: "buffer (fold (\<lambda>tid. handler tid msg) tids s) = buffer s"
  by (induction tids arbitrary: s) simp_all

lemma buffer_emit_message [simp]: "buffer (emit_message msg s) = buffer s"
  by (simp add: emit_message_def)

lemma buffer_emit_init [simp]: "buffer (emit_init msg s) = buffer s"
  by (simp add: emit_init_def)

lemma indexOf_less: "indexOf c xs = Some i \<Longrightarrow> i < length xs"
  by (induction xs arbitrary: i) (auto split: if_splits)

lemma timers_fire [simp]: "timers (fire cb s) = timers s"
  by (simp add: fire_def settle_command_def settle_wait_def off_message_def
      split: timer_callback.split option.split)

lemma fold_earliest_in: "fold (\<lambda>x best. if fst x < fst best then x else best) ts t \<in> set (t # ts)"
  by (induction ts arbitrary: t) (simp, force)

lemma next_due_in: "next_due s = Some t \<Longrightarrow> t \<in> set (timers s)"
proof -
  assume d: "next_due s = Some t"
  then obtain u us where f: "filter (\<lambda>t. fst t \<le> clock s) (timers s) = u # us"
    by (auto simp: next_due_def split: list.splits)
  with d have "t \<in> set (u # us)"
    using fold_earliest_in [of us u] by (simp add: next_due_def)
  then have "t \<in> set (filter (\<lambda>t. fst t \<le> clock s) (timers s))"
    by (simp only: f)
  then show ?thesis
    by simp
qed

lemma handle_frames_preserves:
  assumes "P s"
    and "\<And>s b. P s \<Longrightarrow> P (s\<lparr>buffer := b\<rparr>)"
    and "\<And>s m. P s \<Longrightarrow> P (emit_init m (s\<lparr>initMessage := Some m\<rparr>))"
    and "\<And>s m. P s \<Longrightarrow> P (emit_message m s)"
  shows "P (handle_frames s)"
  using assms(1)
proof (induction s rule: handle_frames.induct)
  case (1 s)
  show ?case
  proof (cases "indexOf 0 (buffer s)")
    case None
    then show ?thesis
      using "1.prems" by (subst handle_frames.simps) simp
  next
    case (Some i)
    let ?m = "take i (buffer s)"
    let ?s = "s\<lparr>buffer := drop (i + 1) (buffer s)\<rparr>"
    have p: "P ?s"
      using "1.prems" by (rule assms(2))
    consider (digits) "is_length_header ?m"
      | (init) "\<not> is_length_header ?m" "str_includes ?m (js ''<init '')"
      | (other) "\<not> is_length_header ?m" "\<not> str_includes ?m (js ''<init '')"
      by blast
    then show ?thesis
    proof cases
      case digits
      have "P (handle_frames ?s)"
        using Some digits p by (rule "1.IH"(1))
      then show ?thesis
        using Some digits by (subst handle_frames.simps) simp
    next
      case init
      have "P (emit_init ?m (?s\<lparr>initMessage := Some ?m\<rparr>))"
        using p by (rule assms(3))
      then have "P (handle_frames (emit_init ?m (?s\<lparr>initMessage := Some ?m\<rparr>)))"
        using Some init "1.IH"(2) by blast
      then show ?thesis
        using Some init by (subst handle_frames.simps) simp
    next
      case other
      have "P (emit_message ?m ?s)"
        using p by (rule assms(4))
      then have "P (handle_frames (emit_message ?m ?s))"
        using Some other "1.IH"(3) by blast
      then show ?thesis
        using Some other by (subst handle_frames.simps) simp
    qed
  qed
qed

lemma run_timers_preserves:
  assumes "P s"
    and "\<And>s t. P s \<Longrightarrow> next_due s = Some t \<Longrightarrow> P (fire (snd t) (s\<lparr>timers := remove1 t (timers s)\<rparr>))"
  shows "P (run_timers s)"
  using assms(1)
proof (induction s rule: run_timers.induct)
  case (1 s)
  show ?case
  proof (cases "next_due s")
    case None
    then show ?thesis
      using "1.prems" by (subst run_timers.simps) simp
  next
    case (Some t)
    have "P (fire (snd t) (s\<lparr>timers := remove1 t (timers s)\<rparr>))"
      using "1.prems" Some by (rule assms(2))
    then have "P (run_timers (fire (snd t) (s\<lparr>timers := remove1 t (timers s)\<rparr>)))"
      using Some "1.IH" by blast
    then show ?thesis
      using Some by (subst run_timers.simps) simp
  qed
qed

subsection \<open>Commands sent while not connected\<close>

text \<open>
  C10. A \<open>sendCommand\<close> call that fails the not-connected check changes nothing: the
  whole state, the transaction-id counter included, is as before, and the next send on
  a connection gets the id the failed call would have got.
\<close>

theorem sendCommand_not_connected_frame:
  "\<not> socket s \<or> \<not> connected s \<Longrightarrow>
     snd (sendCommand c s) = s
     \<and> transactionId (snd (sendCommand c s)) = transactionId s
     \<and> fst (sendCommand c' (step Connect (snd (sendCommand c s)))) = Inr (transactionId s)"
  by (auto simp: sendCommand_def step_def)

theorem sendCommand_not_connected_frame_witness:
  "snd (sendCommand (js ''run'') new_client) = new_client
   \<and> transactionId (snd (sendCommand (js ''run'') new_client)) = 1
   \<and> fst (sendCommand (js ''status'') (step Connect (snd (sendCommand (js ''run'') new_client)))) = Inr 1"
proof -
  have h: "\<not> socket new_client \<or> \<not> connected new_client"
    by (simp add: new_client_def)
  have t: "transactionId new_client = 1"
    by (simp add: new_client_def)
  show ?thesis
    using sendCommand_not_connected_frame [OF h, of "js ''run''" "js ''status''"]
    unfolding t .
qed

text \<open>
  C9. Every command method called while no socket is connected is rejected at once with
  the error \<open>Not connected to AutoHotkey debugger\<close>, and the state is as before: nothing
  is written to a socket, no listener is registered, no timer is armed and no promise is
  left pending.
\<close>

theorem call_method_not_connected:
  "\<not> socket s \<or> \<not> connected s \<Longrightarrow>
     fst (call_method m s) = Inl (js ''Not connected to AutoHotkey debugger'')
     \<and> snd (call_method m s) = s
     \<and> wire (snd (call_method m s)) = wire s
     \<and> messageListeners (snd (call_method m s)) = messageListeners s
     \<and> timers (snd (call_method m s)) = timers s
     \<and> commandPromise (snd (call_method m s)) = commandPromise s"
  by (auto simp: call_method_def sendCommand_def not_connected_def)

theorem call_method_not_connected_witness:
  "fst (call_method (EvaluateExpression (js ''x'')) new_client)
       = Inl (js ''Not connected to AutoHotkey debugger'')
   \<and> wire (snd (call_method (EvaluateExpression (js ''x'')) new_client)) = []
   \<and> messageListeners (snd (call_method (EvaluateExpression (js ''x'')) new_client)) = []
   \<and> timers (snd (call_method (EvaluateExpression (js ''x'')) new_client)) = []"
proof -
  have h: "\<not> socket new_client \<or> \<not> connected new_client"
    by (simp add: new_client_def)
  have w: "wire new_client = []" "messageListeners new_client = []" "timers new_client = []"
    by (simp_all add: new_client_def)
  show ?thesis
    using call_method_not_connected [OF h, of "EvaluateExpression (js ''x'')"]
    unfolding w by blast
qed

subsection \<open>The bound of the error queue\<close>

lemma errorQueue_handler [simp]: "errorQueue (handler tid msg s) = errorQueue s"
  by (simp add: handler_def settle_command_def off_message_def clearTimeout_def)

lemma errorQueue_fold_handler [simp]: "errorQueue (fold (\<lambda>tid. handler tid msg) tids s) = errorQueue s"
  by (induction tids arbitrary: s) simp_all

lemma errorQueue_emit_message [simp]: "errorQueue (emit_message msg s) = errorQueue s"
  by (simp add: emit_message_def)

lemma errorQueue_handle_frames [simp]: "errorQueue (handle_frames s) = errorQueue s"
  by (rule handle_frames_preserves [where P = "\<lambda>s'. errorQueue s' = errorQueue s"])
     (simp_all add: emit_init_def)

lemma errorQueue_handleData [simp]: "errorQueue (handleData data s) = errorQueue s"
  by (simp add: handleData_def)

lemma errorQueue_fire [simp]: "errorQueue (fire cb s) = errorQueue s"
  by (simp add: fire_def settle_command_def settle_wait_def off_message_def
      split: timer_callback.split option.split)

lemma errorQueue_run_timers [simp]: "errorQueue (run_timers s) = errorQueue s"
  by (rule run_timers_preserves [where P = "\<lambda>s'. errorQueue s' = errorQueue s"]) simp_all

lemma errorQueue_invoke_waiter [simp]: "errorQueue (invoke_waiter f e s) = errorQueue s"
  by (simp add: invoke_waiter_def settle_wait_def clearTimeout_def split: waiter.split)

lemma errorQueue_queueError:
  "errorQueue (queueError e s) =
     (if length (errorQueue s) \<ge> errorQueueMaxSize then tl (errorQueue s @ [e]) else errorQueue s @ [e])"
  by (auto simp: queueError_def Let_def split: list.split)

lemma length_errorQueue_step:
  "length (errorQueue s) \<le> errorQueueMaxSize \<Longrightarrow> length (errorQueue (step ev s)) \<le> errorQueueMaxSize"
  by (cases ev)
     (auto simp: step_def errorQueue_queueError sendCommand_def waitForError_def clearErrorQueue_def
        errorQueueMaxSize_def split: list.split)

lemma length_errorQueue_run:
  "length (errorQueue s) \<le> errorQueueMaxSize \<Longrightarrow> length (errorQueue (run evs s)) \<le> errorQueueMaxSize"
  unfolding run_def by (induction evs arbitrary: s) (simp_all add: length_errorQueue_step)

lemma errorQueue_enqueue_all:
  "length (errorQueue s) \<le> errorQueueMaxSize \<Longrightarrow>
     errorQueue (fold queueError es s)
       = drop (length (errorQueue s @ es) - errorQueueMaxSize) (errorQueue s @ es)"
proof (induction es arbitrary: s)
  case Nil
  then show ?case by simp
next
  case (Cons e es)
  have le: "length (errorQueue (queueError e s)) \<le> errorQueueMaxSize"
    using Cons.prems by (auto simp: errorQueue_queueError)
  note ih = Cons.IH [OF le]
  show ?case
  proof (cases "length (errorQueue s) \<ge> errorQueueMaxSize")
    case True
    with Cons.prems have len: "length (errorQueue s) = errorQueueMaxSize"
      by simp
    then obtain q qs where q: "errorQueue s = q # qs"
      by (cases "errorQueue s") (auto simp: errorQueueMaxSize_def)
    have after: "errorQueue (queueError e s) = qs @ [e]"
      using True q by (simp add: errorQueue_queueError)
    have l1: "length ((qs @ [e]) @ es) - errorQueueMaxSize = length es"
      using len q by simp
    have l2: "length (errorQueue s @ e # es) - errorQueueMaxSize = Suc (length es)"
      using len q by simp
    have "errorQueue (fold queueError (e # es) s) = drop (length es) ((qs @ [e]) @ es)"
      using ih unfolding after l1 by simp
    also have "\<dots> = drop (Suc (length es)) (errorQueue s @ e # es)"
      unfolding q by simp
    finally show ?thesis
      unfolding l2 .
  next
    case False
    then have after: "errorQueue (queueError e s) = errorQueue s @ [e]"
      by (simp add: errorQueue_queueError)
    show ?thesis
      using ih unfolding after by simp
  qed
qed

text \<open>
  C8. Whatever happens to a new client, its error queue never holds more than 100 entries;
  and after any sequence of \<open>queueError\<close> calls the queue holds the last 100 errors
  enqueued, in order (all of them when there were at most 100): the oldest are evicted
  first. After 101 calls the first error is the one missing.
\<close>

theorem error_queue_bounded_fifo:
  "length (errorQueue (run evs new_client)) \<le> 100
   \<and> getQueuedErrors (run (map QueueError es) new_client) = drop (length es - 100) es"
proof -
  have fold_eq: "run (map QueueError xs) s = fold queueError xs s" for xs s
    unfolding run_def by (induction xs arbitrary: s) (simp_all add: step_def)
  have init: "length (errorQueue new_client) \<le> errorQueueMaxSize" "errorQueue new_client = []"
    by (simp_all add: new_client_def)
  have a: "length (errorQueue (run evs new_client)) \<le> 100"
    using length_errorQueue_run [OF init(1), of evs] by (simp add: errorQueueMaxSize_def)
  have b: "getQueuedErrors (run (map QueueError es) new_client) = drop (length es - 100) es"
    using errorQueue_enqueue_all [OF init(1), of es]
    by (simp add: getQueuedErrors_def fold_eq init(2) errorQueueMaxSize_def)
  from a b show ?thesis by blast
qed

theorem error_queue_bounded_fifo_witness:
  "getQueuedErrors (run (map QueueError (map sample_error [0 ..< 101])) new_client)
     = map sample_error [1 ..< 101]"
proof -
  have "drop (length (map sample_error [0 ..< 101]) - 100) (map sample_error [0 ..< 101])
      = map sample_error [1 ..< 101]"
    by (simp add: drop_map del: upt_Suc)
  then show ?thesis
    using error_queue_bounded_fifo [of "[]" "map sample_error [0 ..< 101]"] by (simp del: upt_Suc)
qed

subsection \<open>Responses are matched by the text of the transaction id\<close>

lemma handler_no_match: "\<not> str_includes msg (transaction_marker tid) \<Longrightarrow> handler tid msg s = s"
  by (simp add: handler_def)

lemma commandPromise_handler_other:
  "t \<noteq> tid \<Longrightarrow> commandPromise (handler tid msg s) t = commandPromise s t"
  by (simp add: handler_def settle_command_def off_message_def clearTimeout_def)

lemma commandPromise_handler_settled:
  "commandPromise s t = Some r \<Longrightarrow> r \<noteq> Pending \<Longrightarrow> commandPromise (handler tid msg s) t = Some r"
  by (auto simp: handler_def settle_command_def off_message_def clearTimeout_def)

lemma commandPromise_handler_match:
  "str_includes msg (transaction_marker t) \<Longrightarrow> commandPromise s t = Some Pending \<Longrightarrow>
     commandPromise (handler t msg s) t = Some (Resolved (parseResponse msg))"
  by (simp add: handler_def settle_command_def off_message_def clearTimeout_def)

lemma set_remove_last: "set (rev (remove1 x (rev xs))) \<subseteq> set xs"
  using set_remove1_subset [of x "rev xs"] by simp

lemma listeners_handler_other:
  "t \<noteq> tid \<Longrightarrow> t \<in> set (messageListeners (handler tid msg s)) \<longleftrightarrow> t \<in> set (messageListeners s)"
  by (simp add: handler_def settle_command_def off_message_def clearTimeout_def)

lemma fold_handler_settled:
  "commandPromise s t = Some r \<Longrightarrow> r \<noteq> Pending \<Longrightarrow>
     commandPromise (fold (\<lambda>tid. handler tid msg) tids s) t = Some r"
  by (induction tids arbitrary: s) (simp_all add: commandPromise_handler_settled)

lemma fold_handler_match:
  "t \<in> set tids \<Longrightarrow> str_includes msg (transaction_marker t) \<Longrightarrow> commandPromise s t = Some Pending \<Longrightarrow>
     commandPromise (fold (\<lambda>tid. handler tid msg) tids s) t = Some (Resolved (parseResponse msg))"
proof (induction tids arbitrary: s)
  case Nil
  then show ?case by simp
next
  case (Cons x xs)
  show ?case
  proof (cases "x = t")
    case True
    have "commandPromise (handler t msg s) t = Some (Resolved (parseResponse msg))"
      using Cons.prems by (simp add: commandPromise_handler_match)
    then show ?thesis
      using True by (simp add: fold_handler_settled)
  next
    case False
    then have "commandPromise (handler x msg s) t = Some Pending" "t \<in> set xs"
      using Cons.prems by (simp_all add: commandPromise_handler_other)
    then show ?thesis
      using Cons.IH Cons.prems(2) by simp
  qed
qed

lemma fold_handler_quiet:
  assumes "\<not> str_includes msg (transaction_marker t)"
  shows "commandPromise (fold (\<lambda>tid. handler tid msg) tids s) t = commandPromise s t
    \<and> (t \<in> set (messageListeners (fold (\<lambda>tid. handler tid msg) tids s)) \<longleftrightarrow> t \<in> set (messageListeners s))"
proof (induction tids arbitrary: s)
  case Nil
  show ?case by simp
next
  case (Cons x xs)
  show ?case
  proof (cases "x = t")
    case True
    then show ?thesis
      using Cons.IH assms by (simp add: handler_no_match)
  next
    case False
    then show ?thesis
      using Cons.IH [of "handler x msg s"]
      by (simp add: commandPromise_handler_other listeners_handler_other)
  qed
qed

lemma emit_message_settled:
  "commandPromise s t = Some r \<Longrightarrow> r \<noteq> Pending \<Longrightarrow> commandPromise (emit_message msg s) t = Some r"
  by (simp add: emit_message_def fold_handler_settled)

lemma emit_message_match:
  "awaiting t s \<Longrightarrow> str_includes msg (transaction_marker t) \<Longrightarrow>
     commandPromise (emit_message msg s) t = Some (Resolved (parseResponse msg))"
  by (simp add: emit_message_def awaiting_def fold_handler_match)

lemma emit_message_quiet:
  "awaiting t s \<Longrightarrow> \<not> str_includes msg (transaction_marker t) \<Longrightarrow> awaiting t (emit_message msg s)"
  using fold_handler_quiet [of msg t "messageListeners s" "s\<lparr>emitted := emitted s @ [EmitMessage msg]\<rparr>"]
  by (simp add: emit_message_def awaiting_def)

lemma deliver_settled:
  "commandPromise s t = Some r \<Longrightarrow> r \<noteq> Pending \<Longrightarrow> commandPromise (deliver msgs s) t = Some r"
  unfolding deliver_def by (induction msgs arbitrary: s) (simp_all add: emit_message_settled)

lemma deliver_own_response:
  assumes "awaiting t s"
    and "t \<in> set order"
    and "str_includes (reply t) (transaction_marker t)"
    and "\<forall>u \<in> set order. u \<noteq> t \<longrightarrow> \<not> str_includes (reply u) (transaction_marker t)"
  shows "commandPromise (deliver (map reply order) s) t = Some (Resolved (parseResponse (reply t)))"
  using assms
proof (induction order arbitrary: s)
  case Nil
  then show ?case by simp
next
  case (Cons u us)
  show ?case
  proof (cases "u = t")
    case True
    then have "commandPromise (emit_message (reply u) s) t = Some (Resolved (parseResponse (reply t)))"
      using Cons.prems by (simp add: emit_message_match)
    then show ?thesis
      by (simp add: deliver_def deliver_settled [unfolded deliver_def])
  next
    case False
    then have "awaiting t (emit_message (reply u) s)" "t \<in> set us"
      using Cons.prems by (simp_all add: emit_message_quiet)
    then show ?thesis
      using Cons.IH Cons.prems by (simp add: deliver_def)
  qed
qed

lemma awaiting_sendCommand:
  "awaiting t s \<Longrightarrow> t < transactionId s \<Longrightarrow> awaiting t (snd (sendCommand c s))"
  by (simp add: awaiting_def sendCommand_def)

lemma send_all_connected:
  assumes "socket s" "connected s"
  shows "fst (send_all cs s) = map Inr [transactionId s ..< transactionId s + length cs]
    \<and> transactionId (snd (send_all cs s)) = transactionId s + length cs
    \<and> (\<forall>t. (awaiting t s \<and> t < transactionId s) \<or> (transactionId s \<le> t \<and> t < transactionId s + length cs)
           \<longrightarrow> awaiting t (snd (send_all cs s)))"
  using assms
proof (induction cs arbitrary: s)
  case Nil
  then show ?case by auto
next
  case (Cons c cs)
  let ?s1 = "snd (sendCommand c s)"
  have s1: "sendCommand c s = (Inr (transactionId s), ?s1)" "socket ?s1" "connected ?s1"
      "transactionId ?s1 = transactionId s + 1" "awaiting (transactionId s) ?s1"
    using Cons.prems by (simp_all add: sendCommand_def awaiting_def)
  note ih = Cons.IH [OF s1(2,3)]
  have keep: "awaiting t s \<and> t < transactionId s \<Longrightarrow> awaiting t ?s1" for t
    by (simp add: awaiting_sendCommand)
  have 1: "fst (send_all (c # cs) s) = map Inr [transactionId s ..< transactionId s + length (c # cs)]"
  proof -
    have "fst (send_all cs ?s1) = map Inr [Suc (transactionId s) ..< Suc (transactionId s) + length cs]"
      using ih s1(4) by (simp del: upt_Suc)
    moreover have "fst (sendCommand c s) = Inr (transactionId s)"
      using Cons.prems by (simp add: sendCommand_def)
    moreover have "[transactionId s ..< transactionId s + length (c # cs)]
        = transactionId s # [Suc (transactionId s) ..< Suc (transactionId s) + length cs]"
      by (simp add: upt_conv_Cons del: upt_Suc)
    ultimately show ?thesis
      by (simp add: split_beta del: upt_Suc)
  qed
  have 2: "transactionId (snd (send_all (c # cs) s)) = transactionId s + length (c # cs)"
    using ih s1(1,4) by (simp add: split_beta)
  have 3: "awaiting t (snd (send_all (c # cs) s))"
    if "(awaiting t s \<and> t < transactionId s) \<or> (transactionId s \<le> t \<and> t < transactionId s + length (c # cs))" for t
  proof -
    have "(awaiting t ?s1 \<and> t < transactionId ?s1) \<or> (transactionId ?s1 \<le> t \<and> t < transactionId ?s1 + length cs)"
      using that keep [of t] s1(4,5) by (cases "t = transactionId s") auto
    then have "awaiting t (snd (send_all cs ?s1))"
      using ih by blast
    then show ?thesis
      using s1(1) by (simp add: split_beta)
  qed
  from 1 2 3 show ?case by blast
qed

lemma decimal_digits: "list_all is_digit (decimal n)"
proof (induction n rule: decimal.induct)
  case (1 n)
  show ?case
  proof (cases "n < 10")
    case True
    then show ?thesis
      by (subst decimal.simps) (simp add: is_digit_def)
  next
    case False
    have "n mod 10 < 10" by simp
    then have "is_digit (48 + n mod 10)"
      unfolding is_digit_def by linarith
    with False "1.IH" show ?thesis
      by (subst decimal.simps) simp
  qed
qed

lemma decimal_not_empty: "decimal n \<noteq> []"
  by (subst decimal.simps) simp

lemma decimal_inject: "decimal n = decimal m \<Longrightarrow> n = m"
proof (induction n arbitrary: m rule: decimal.induct)
  case (1 n)
  show ?case
  proof (cases "n < 10")
    case n: True
    show ?thesis
    proof (cases "m < 10")
      case True
      with n "1.prems" show ?thesis
        by (simp add: decimal.simps [of n] decimal.simps [of m])
    next
      case False
      with n "1.prems" decimal_not_empty [of "m div 10"] show ?thesis
        by (simp add: decimal.simps [of n] decimal.simps [of m] Cons_eq_append_conv)
    qed
  next
    case n: False
    show ?thesis
    proof (cases "m < 10")
      case True
      with n "1.prems" decimal_not_empty [of "n div 10"] show ?thesis
        by (simp add: decimal.simps [of n] decimal.simps [of m] append_eq_Cons_conv)
    next
      case False
      with n "1.prems" have "decimal (n div 10) = decimal (m div 10)" "n mod 10 = m mod 10"
        by (simp_all add: decimal.simps [of n] decimal.simps [of m])
      with n "1.IH" have "n div 10 = m div 10" "n mod 10 = m mod 10"
        by simp_all
      then show ?thesis
        by (metis div_mult_mod_eq)
    qed
  qed
qed

lemma digits_then_quote:
  assumes "list_all is_digit a" "list_all is_digit b"
  shows "starts_with (b @ dquote # c) (a @ [dquote]) \<longleftrightarrow> a = b"
  using assms
proof (induction a arbitrary: b)
  case Nil
  then show ?case
    by (cases b) (auto simp: is_digit_def dquote_def)
next
  case (Cons x xs)
  then show ?case
    by (cases b) (auto simp: is_digit_def dquote_def)
qed

lemma no_tr_no_match: "no_tr s \<Longrightarrow> \<not> str_includes s (116 # 114 # rest)"
  by (induction s rule: no_tr.induct) auto

lemma no_tr_append:
  "no_tr a \<Longrightarrow> no_tr b \<Longrightarrow> (a \<noteq> [] \<and> b \<noteq> [] \<longrightarrow> \<not> (last a = 116 \<and> hd b = 114)) \<Longrightarrow> no_tr (a @ b)"
proof (induction a rule: no_tr.induct)
  case 1
  then show ?case by simp
next
  case (2 c)
  then show ?case by (cases b) auto
next
  case (3 c d cs)
  then show ?case by simp
qed

lemma no_tr_digits: "list_all is_digit a \<Longrightarrow> no_tr a"
  by (induction a rule: no_tr.induct) (auto simp: is_digit_def)

lemma str_includes_skip_prefix:
  "c \<notin> set p \<Longrightarrow> str_includes (p @ r) (c # x) = str_includes r (c # x)"
  by (induction p) auto

text \<open>
  The marker of an id occurs in the sample response of an id exactly when the two ids are
  the same: the closing double quote keeps the marker of 1 out of the response to 12.
\<close>

lemma response_xml_marker:
  "str_includes (response_xml u) (transaction_marker t) \<longleftrightarrow> u = t"
proof -
  let ?T = "js ''transaction_id='' @ [dquote]"
  let ?P = "js ''<response command='' @ quoted (js ''run'') @ js '' ''"
  let ?Q = "js '' status='' @ quoted (js ''break'') @ js ''/>''"
  have m: "transaction_marker t = 116 # 114 # (js ''ansaction_id='' @ [dquote] @ decimal t @ [dquote])"
    by (simp add: transaction_marker_def js_def)
  have r: "response_xml u = ?P @ ?T @ decimal u @ dquote # ?Q"
    by (simp add: response_xml_def quoted_def js_def)
  have p: "116 \<notin> set ?P"
    by (simp add: js_def quoted_def dquote_def)
  have 1: "str_includes (response_xml u) (transaction_marker t)
      = str_includes (?T @ decimal u @ dquote # ?Q) (transaction_marker t)"
    unfolding r m using p by (rule str_includes_skip_prefix)
  have tail: "no_tr (js ''ransaction_id='' @ [dquote] @ decimal u @ dquote # ?Q)"
  proof -
    have b: "no_tr (decimal u @ dquote # ?Q)"
    proof (rule no_tr_append)
      show "no_tr (decimal u)" by (rule no_tr_digits) (rule decimal_digits)
      show "no_tr (dquote # ?Q)" by (simp add: js_def quoted_def dquote_def)
      show "decimal u \<noteq> [] \<and> dquote # ?Q \<noteq> [] \<longrightarrow> \<not> (last (decimal u) = 116 \<and> hd (dquote # ?Q) = 114)"
        by (simp add: dquote_def)
    qed
    have a: "no_tr (js ''ransaction_id='' @ [dquote])"
      by (simp add: js_def dquote_def)
    from a b have "no_tr ((js ''ransaction_id='' @ [dquote]) @ decimal u @ dquote # ?Q)"
      by (rule no_tr_append) (simp add: js_def dquote_def)
    then show ?thesis by simp
  qed
  have split: "?T @ decimal u @ dquote # ?Q = 116 # (js ''ransaction_id='' @ [dquote] @ decimal u @ dquote # ?Q)"
    by (simp add: js_def)
  have 2: "str_includes (?T @ decimal u @ dquote # ?Q) (transaction_marker t)
      = starts_with (?T @ decimal u @ dquote # ?Q) (transaction_marker t)"
    unfolding split using no_tr_no_match [OF tail] by (simp add: m)
  have 3: "starts_with (?T @ decimal u @ dquote # ?Q) (transaction_marker t)
      = starts_with (decimal u @ dquote # ?Q) (decimal t @ [dquote])"
    by (simp add: transaction_marker_def js_def)
  have 4: "starts_with (decimal u @ dquote # ?Q) (decimal t @ [dquote]) \<longleftrightarrow> decimal t = decimal u"
    by (rule digits_then_quote) (rule decimal_digits)+
  show ?thesis
    unfolding 1 2 3 4 using decimal_inject by auto
qed

lemma indexOf_None: "indexOf c xs = None \<longleftrightarrow> c \<notin> set xs"
  by (induction xs) auto

lemma obj_get_assign: "obj_get (obj_assign k v obj) k = Some v"
  by (induction obj) (simp_all add: obj_get_def)

lemma parseResponse_raw: "obj_get (parseResponse xml) (js ''_raw'') = Some xml"
  by (simp add: parseResponse_def Let_def obj_set_def obj_get_assign js_def)

lemma scan_attrs_skip: "\<not> is_word c \<Longrightarrow> scan_attrs (c # cs) = scan_attrs cs"
  by (simp add: scan_attrs.simps)

lemma takeWhile_until: "c \<notin> set v \<Longrightarrow> takeWhile (\<lambda>x. x \<noteq> c) (v @ c # rest) = v"
  by (induction v) auto

lemma dropWhile_until: "c \<notin> set v \<Longrightarrow> dropWhile (\<lambda>x. x \<noteq> c) (v @ c # rest) = c # rest"
  by (induction v) auto

lemma scan_attrs_attr:
  assumes "k \<noteq> []" and "list_all is_word k" and "dquote \<notin> set v"
  shows "scan_attrs (k @ [61, dquote] @ v @ dquote # rest) = (k, v) # scan_attrs rest"
proof -
  define X where "X = k @ [61, dquote] @ v @ dquote # rest"
  obtain c cs where X: "X = c # cs"
    using assms(1) unfolding X_def by (cases k) auto
  have w: "\<not> is_word 61"
    by (simp add: is_word_def)
  have kw: "\<And>x. x \<in> set k \<Longrightarrow> is_word x"
    using assms(2) by (simp add: list_all_iff)
  have t: "takeWhile is_word X = k"
    unfolding X_def using kw w by (simp add: takeWhile_append2)
  have d: "dropWhile is_word X = 61 # dquote # v @ dquote # rest"
    unfolding X_def using kw w by (simp add: dropWhile_append2)
  have i: "indexOf dquote (v @ dquote # rest) \<noteq> None"
    by (simp add: indexOf_None)
  have tv: "takeWhile (\<lambda>x. x \<noteq> dquote) (v @ dquote # rest) = v"
    using assms(3) by (rule takeWhile_until)
  have dv: "dropWhile (\<lambda>x. x \<noteq> dquote) (v @ dquote # rest) = dquote # rest"
    using assms(3) by (rule dropWhile_until)
  have "scan_attrs (c # cs) =
    (if takeWhile is_word (c # cs) \<noteq> []
        \<and> starts_with (dropWhile is_word (c # cs)) [61, dquote]
        \<and> indexOf dquote (drop 2 (dropWhile is_word (c # cs))) \<noteq> None
     then (takeWhile is_word (c # cs),
           takeWhile (\<lambda>x. x \<noteq> dquote) (drop 2 (dropWhile is_word (c # cs))))
          # scan_attrs (tl (dropWhile (\<lambda>x. x \<noteq> dquote) (drop 2 (dropWhile is_word (c # cs)))))
     else scan_attrs cs)"
    by (rule scan_attrs.simps)
  then have "scan_attrs X = (k, v) # scan_attrs rest"
    unfolding X [symmetric] t d using assms(1) i by (simp add: tv dv)
  then show ?thesis
    unfolding X_def .
qed

lemma decimal_set: "x \<in> set (decimal n) \<Longrightarrow> is_digit x"
  using decimal_digits [of n] by (simp add: list_all_iff)

lemma parseResponse_response_xml:
  "obj_get (parseResponse (response_xml t)) (js ''transaction_id'') = Some (decimal t)"
proof -
  let ?A = "32 # (js ''command'' @ [61, dquote] @ js ''run'' @ dquote #
             (32 # (js ''transaction_id'' @ [61, dquote] @ decimal t @ dquote #
               (32 # (js ''status'' @ [61, dquote] @ js ''break'' @ dquote # [47])))))"
  have r: "response_xml t = js ''<response'' @ ?A @ [62]"
    by (simp add: response_xml_def quoted_def js_def)
  have nd: "62 \<notin> set (decimal t)" "dquote \<notin> set (decimal t)"
    using decimal_set [of 62 t] decimal_set [of dquote t] by (auto simp: is_digit_def dquote_def)
  have na: "62 \<notin> set ?A"
    using nd by (simp add: js_def dquote_def)
  have m: "match_response (response_xml t) = Some ?A"
  proof -
    have "takeWhile (\<lambda>x. x \<noteq> 62) (?A @ [62]) = ?A"
      using na by (rule takeWhile_until)
    moreover have "indexOf 62 (?A @ [62]) \<noteq> None"
      by (simp only: indexOf_None) simp
    ultimately show ?thesis
      unfolding r by (simp add: js_def)
  qed
  have s: "scan_attrs ?A = [(js ''command'', js ''run''), (js ''transaction_id'', decimal t),
      (js ''status'', js ''break'')]"
  proof -
    have 1: "scan_attrs ?A = scan_attrs (js ''command'' @ [61, dquote] @ js ''run'' @ dquote #
             (32 # (js ''transaction_id'' @ [61, dquote] @ decimal t @ dquote #
               (32 # (js ''status'' @ [61, dquote] @ js ''break'' @ dquote # [47])))))"
      by (rule scan_attrs_skip) (simp add: is_word_def)
    have 2: "scan_attrs (js ''command'' @ [61, dquote] @ js ''run'' @ dquote # rest)
        = (js ''command'', js ''run'') # scan_attrs rest" for rest
      by (rule scan_attrs_attr) (simp_all add: js_def is_word_def dquote_def)
    have 3: "scan_attrs (32 # rest) = scan_attrs rest" for rest
      by (rule scan_attrs_skip) (simp add: is_word_def)
    have 4: "scan_attrs (js ''transaction_id'' @ [61, dquote] @ decimal t @ dquote # rest)
        = (js ''transaction_id'', decimal t) # scan_attrs rest" for rest
      by (rule scan_attrs_attr) (simp_all add: js_def is_word_def nd)
    have 5: "scan_attrs (js ''status'' @ [61, dquote] @ js ''break'' @ dquote # rest)
        = (js ''status'', js ''break'') # scan_attrs rest" for rest
      by (rule scan_attrs_attr) (simp_all add: js_def is_word_def dquote_def)
    have 6: "scan_attrs [47] = []"
      by (simp add: scan_attrs.simps is_word_def)
    show ?thesis
      unfolding 1 2 3 4 5 6 ..
  qed
  have p: "parseResponse (response_xml t) = obj_set (js ''_raw'') (response_xml t)
      (parse_attrs ?A [(js ''command'', []), (js ''transaction_id'', [])])"
    by (simp add: parseResponse_def m)
  show ?thesis
    unfolding p parse_attrs_def s
    by (simp add: obj_set_def obj_get_def js_def)
qed

lemma deliver_first_match:
  assumes "awaiting t s"
  shows "commandPromise (deliver msgs s) t =
     (case find (\<lambda>m. str_includes m (transaction_marker t)) msgs of
        None \<Rightarrow> Some Pending
      | Some m \<Rightarrow> Some (Resolved (parseResponse m)))"
  using assms
proof (induction msgs arbitrary: s)
  case Nil
  then show ?case by (simp add: deliver_def awaiting_def)
next
  case (Cons m ms)
  show ?case
  proof (cases "str_includes m (transaction_marker t)")
    case True
    then have "commandPromise (emit_message m s) t = Some (Resolved (parseResponse m))"
      using Cons.prems by (simp add: emit_message_match)
    then show ?thesis
      using True by (simp add: deliver_def deliver_settled [unfolded deliver_def])
  next
    case False
    then have "awaiting t (emit_message m s)"
      using Cons.prems by (simp add: emit_message_quiet)
    then show ?thesis
      using Cons.IH False by (simp add: deliver_def)
  qed
qed

text \<open>
  C5. On a connected client, N commands issued together get N consecutive, distinct
  transaction ids. When messages are then delivered as message events, in any order, the
  call with the id \<open>t\<close> is resolved with the parsed form of the first delivered message
  whose text contains \<open>transaction_id="t"\<close> anywhere, and stays pending when no delivered
  message contains it; the parsed form keeps the message itself in \<open>_raw\<close>. So when the
  response to \<open>t\<close> is the only delivered one that contains this text, the call is resolved
  with it, wherever it stands in the order; the responses \<open>response_xml\<close> are such, and
  the \<open>transaction_id\<close> parsed from the one a call is resolved with is the id of the call.
\<close>

theorem responses_matched_by_marker_text:
  assumes "socket s" and "connected s"
    and "transactionId s \<le> t" and "t < transactionId s + length cmds"
  shows "fst (send_all cmds s) = map Inr [transactionId s ..< transactionId s + length cmds]
    \<and> distinct (fst (send_all cmds s))
    \<and> commandPromise (deliver msgs (snd (send_all cmds s))) t
        = (case find (\<lambda>m. str_includes m (js ''transaction_id='' @ quoted (decimal t))) msgs of
             None \<Rightarrow> Some Pending
           | Some m \<Rightarrow> Some (Resolved (parseResponse m)))
    \<and> obj_get (parseResponse m) (js ''_raw'') = Some m
    \<and> (t \<in> set order
         \<and> (\<forall>u \<in> set order.
               str_includes (reply u) (js ''transaction_id='' @ quoted (decimal t)) \<longleftrightarrow> u = t) \<longrightarrow>
         commandPromise (deliver (map reply order) (snd (send_all cmds s))) t
           = Some (Resolved (parseResponse (reply t))))
    \<and> (t \<in> set order \<longrightarrow>
         commandPromise (deliver (map response_xml order) (snd (send_all cmds s))) t
           = Some (Resolved (parseResponse (response_xml t))))
    \<and> obj_get (parseResponse (response_xml t)) (js ''transaction_id'') = Some (decimal t)"
proof -
  note sa = send_all_connected [OF assms(1,2), of cmds]
  have ids: "fst (send_all cmds s) = map Inr [transactionId s ..< transactionId s + length cmds]"
    using sa by blast
  have d: "distinct (fst (send_all cmds s))"
    unfolding ids by (simp add: distinct_map)
  have a: "awaiting t (snd (send_all cmds s))"
    using sa assms(3,4) by blast
  have mk: "js ''transaction_id='' @ quoted (decimal t) = transaction_marker t"
    by (simp add: transaction_marker_def quoted_def)
  have first: "commandPromise (deliver msgs (snd (send_all cmds s))) t
        = (case find (\<lambda>m. str_includes m (js ''transaction_id='' @ quoted (decimal t))) msgs of
             None \<Rightarrow> Some Pending
           | Some m \<Rightarrow> Some (Resolved (parseResponse m)))"
    using deliver_first_match [OF a, of msgs] unfolding mk .
  have own: "commandPromise (deliver (map r order) (snd (send_all cmds s))) t
           = Some (Resolved (parseResponse (r t)))"
    if t: "t \<in> set order"
      and r: "\<forall>u \<in> set order. str_includes (r u) (transaction_marker t) \<longleftrightarrow> u = t"
    for r
  proof (rule deliver_own_response)
    show "awaiting t (snd (send_all cmds s))" by (rule a)
    show "t \<in> set order" by (rule t)
    show "str_includes (r t) (transaction_marker t)"
      using r t by blast
    show "\<forall>u \<in> set order. u \<noteq> t \<longrightarrow> \<not> str_includes (r u) (transaction_marker t)"
      using r by blast
  qed
  have engine: "commandPromise (deliver (map response_xml order) (snd (send_all cmds s))) t
           = Some (Resolved (parseResponse (response_xml t)))" if "t \<in> set order"
    using that by (rule own) (simp add: response_xml_marker)
  from ids d first own [of reply] engine show ?thesis
    unfolding mk by (simp add: parseResponse_raw parseResponse_response_xml)
qed

theorem responses_matched_by_marker_text_witness:
  "fst (send_all [js ''run'', js ''status'', js ''stack_get''] (run [Connect] new_client))
     = [Inr 1, Inr 2, Inr 3]
   \<and> commandPromise (deliver [response_xml 3, response_xml 1, response_xml 2]
        (snd (send_all [js ''run'', js ''status'', js ''stack_get''] (run [Connect] new_client)))) 2
       = Some (Resolved (parseResponse (response_xml 2)))
   \<and> obj_get (parseResponse (response_xml 2)) (js ''_raw'') = Some (response_xml 2)
   \<and> obj_get (parseResponse (response_xml 2)) (js ''transaction_id'') = Some (js ''2'')
   \<and> commandPromise (deliver [response_xml 3]
        (snd (send_all [js ''run'', js ''status'', js ''stack_get''] (run [Connect] new_client)))) 2
       = Some Pending"
proof -
  let ?s = "run [Connect] new_client"
  let ?cmds = "[js ''run'', js ''status'', js ''stack_get'']"
  have c: "socket ?s" "connected ?s" and t: "transactionId ?s = 1"
    by (simp_all add: client_eval)
  have r: "transactionId ?s \<le> 2" "2 < transactionId ?s + length ?cmds"
    unfolding t by simp_all
  have u: "[1 ..< 1 + length ?cmds] = [1, 2, 3]"
    by (simp add: upt_rec)
  have f: "find (\<lambda>m. str_includes m (js ''transaction_id='' @ quoted (js ''2'')))
      [response_xml 3, response_xml 1, response_xml 2] = Some (response_xml 2)"
    by (simp add: string_eval)
  have g: "find (\<lambda>m. str_includes m (js ''transaction_id='' @ quoted (js ''2'')))
      [response_xml 3] = None"
    by (simp add: string_eval)
  have d: "decimal 2 = js ''2''"
    by (simp add: string_eval)
  show ?thesis
    using responses_matched_by_marker_text [OF c r,
        of "[response_xml 3, response_xml 1, response_xml 2]" "response_xml 2" "[3, 1, 2]" response_xml]
      responses_matched_by_marker_text [OF c r, of "[response_xml 3]" "response_xml 2" "[]" response_xml]
    unfolding t u f g d by simp
qed

lemmas parse_eval = parseResponse_def parse_attrs_def match_response.simps scan_attrs.simps
  obj_set_def obj_get_def echo_response_def deliver_def

text \<open>
  The match is on the whole text of the message, not on the \<open>transaction_id\<close> attribute
  of the response element: the response to the command 1 below holds the text
  \<open>transaction_id="2"\<close> in a property value, and delivered first it resolves the call 2
  as well, with the response that carries the id 1.
\<close>

theorem responses_cross_wired_counterexample:
  "fst (send_all [js ''eval'', js ''status''] (run [Connect] new_client)) = [Inr 1, Inr 2]
   \<and> obj_get (parseResponse (echo_response 1 2)) (js ''transaction_id'') = Some (js ''1'')
   \<and> obj_get (parseResponse (response_xml 2)) (js ''transaction_id'') = Some (js ''2'')
   \<and> commandPromise (deliver [echo_response 1 2, response_xml 2]
        (snd (send_all [js ''eval'', js ''status''] (run [Connect] new_client)))) 2
       = Some (Resolved (parseResponse (echo_response 1 2)))
   \<and> parseResponse (echo_response 1 2) \<noteq> parseResponse (response_xml 2)"
  by (simp add: client_eval string_eval parse_eval)

subsection \<open>A command without a response times out\<close>

lemma fold_preserves:
  "(\<And>x s. Q s \<Longrightarrow> Q (f x s)) \<Longrightarrow> Q s \<Longrightarrow> Q (fold f xs s)"
  by (induction xs arbitrary: s) simp_all

lemma filter_remove1_other: "\<not> P x \<Longrightarrow> filter P (remove1 x xs) = filter P xs"
  by (induction xs) auto

lemma filter_remove_last_other: "\<not> P x \<Longrightarrow> filter P (rev (remove1 x (rev xs))) = filter P xs"
  by (simp add: filter_remove1_other rev_filter [symmetric])

lemma filter_single_remove1: "filter (\<lambda>y. y = x) xs = [x] \<Longrightarrow> x \<notin> set (remove1 x xs)"
proof (induction xs)
  case Nil
  then show ?case by simp
next
  case (Cons a xs)
  show ?case
  proof (cases "a = x")
    case True
    with Cons.prems have "filter (\<lambda>y. y = x) xs = []" by simp
    then have "x \<notin> set xs" by (auto simp: filter_empty_conv)
    with True show ?thesis by simp
  next
    case False
    with Cons show ?thesis by simp
  qed
qed

lemma filter_single_remove_last:
  assumes "filter (\<lambda>y. y = x) xs = [x]"
  shows "x \<notin> set (rev (remove1 x (rev xs)))"
proof -
  have "filter (\<lambda>y. y = x) (rev xs) = [x]"
    using assms by (simp add: rev_filter [symmetric])
  then show ?thesis
    using filter_single_remove1 [of x "rev xs"] by simp
qed

lemma filter_single_remove1_pred:
  "filter P xs = [t] \<Longrightarrow> filter P (remove1 t xs) = []"
proof (induction xs)
  case Nil
  then show ?case by simp
next
  case (Cons a xs)
  show ?case
  proof (cases "P a")
    case True
    with Cons.prems have "a = t" "filter P xs = []" by simp_all
    then show ?thesis by simp
  next
    case False
    with Cons.prems have "filter P xs = [t]" by simp
    then have "t \<in> set (filter P xs)"
      by simp
    then have "P t"
      by simp
    with False have "a \<noteq> t" by blast
    with Cons False \<open>filter P xs = [t]\<close> show ?thesis by simp
  qed
qed

lemma filter_timers_clear_other:
  "cb \<noteq> cb' \<Longrightarrow> filter (\<lambda>x. snd x \<noteq> cb' \<and> snd x = cb) ts = filter (\<lambda>x. snd x = cb) ts"
  by (rule filter_cong) auto

lemma filter_timers_clear_empty:
  "filter P ts = [] \<Longrightarrow> filter (\<lambda>x. Q x \<and> P x) ts = []"
  by (auto simp: filter_empty_conv)

lemma live_handler:
  assumes "live tid d s" and "x \<noteq> tid \<or> \<not> str_includes m (transaction_marker tid)"
  shows "live tid d (handler x m s)"
proof (cases "x = tid")
  case True
  with assms show ?thesis by (simp add: handler_no_match)
next
  case False
  then have "CommandTimeout tid \<noteq> CommandTimeout x" by simp
  with assms(1) False show ?thesis
    by (simp add: live_def handler_def settle_command_def off_message_def clearTimeout_def
        filter_remove_last_other filter_timers_clear_other)
qed

lemma expired_handler: "expired tid s \<Longrightarrow> expired tid (handler x m s)"
  using set_remove_last [of x "messageListeners s"]
  by (auto simp: expired_def handler_def settle_command_def off_message_def clearTimeout_def
      filter_timers_clear_empty)

lemma emitted_handler [simp]: "emitted (handler x m s) = emitted s"
  by (simp add: handler_def settle_command_def off_message_def clearTimeout_def)

lemma clock_handler [simp]: "clock (handler x m s) = clock s"
  by (simp add: handler_def settle_command_def off_message_def clearTimeout_def)

lemma emitted_fold_handler [simp]: "emitted (fold (\<lambda>x. handler x m) xs s) = emitted s"
  by (induction xs arbitrary: s) simp_all

lemma clock_fold_handler [simp]: "clock (fold (\<lambda>x. handler x m) xs s) = clock s"
  by (induction xs arbitrary: s) simp_all

lemma answered_append:
  "n \<le> length (emitted s) \<Longrightarrow> emitted s' = emitted s @ es \<Longrightarrow>
     answered tid n s' \<longleftrightarrow> answered tid n s \<or> list_ex (is_marked tid) es"
  by (auto simp: answered_def list_ex_iff)

lemma tracked_emit_message: "tracked tid d n s \<Longrightarrow> tracked tid d n (emit_message m s)"
proof -
  assume t: "tracked tid d n s"
  let ?s0 = "s\<lparr>emitted := emitted s @ [EmitMessage m]\<rparr>"
  let ?s1 = "emit_message m s"
  have e: "emitted ?s1 = emitted s @ [EmitMessage m]" and c: "clock ?s1 = clock s"
    by (simp_all add: emit_message_def)
  from t have n: "n \<le> length (emitted s)"
    by (simp add: tracked_def)
  have a: "answered tid n ?s1 \<longleftrightarrow> answered tid n s \<or> str_includes m (transaction_marker tid)"
    using answered_append [OF n e] by (simp add: is_marked_def)
  show ?thesis
  proof (cases "answered tid n ?s1")
    case True
    then show ?thesis using n e by (simp add: tracked_def)
  next
    case False
    with a have q: "\<not> str_includes m (transaction_marker tid)" and na: "\<not> answered tid n s"
      by simp_all
    from t na consider (l) "live tid d s" | (x) "expired tid s" "d \<le> clock s"
      by (auto simp: tracked_def)
    then show ?thesis
    proof cases
      case l
      then have "live tid d ?s0"
        by (simp add: live_def)
      then have "live tid d ?s1"
        unfolding emit_message_def
        by (rule fold_preserves [rotated]) (simp add: live_handler q)
      then show ?thesis using n e by (simp add: tracked_def)
    next
      case x
      then have "expired tid ?s0"
        by (simp add: expired_def)
      then have "expired tid ?s1"
        unfolding emit_message_def
        by (rule fold_preserves [rotated]) (simp add: expired_handler)
      then show ?thesis using n e c x(2) by (simp add: tracked_def)
    qed
  qed
qed

lemma tracked_handleData: "tracked tid d n s \<Longrightarrow> tracked tid d n (handleData data s)"
  unfolding handleData_def
proof (rule handle_frames_preserves [where P = "tracked tid d n"])
  assume "tracked tid d n s"
  then show "tracked tid d n (s\<lparr>buffer := buffer s @ toString_utf8 data\<rparr>)"
    by (simp add: tracked_def answered_def live_def expired_def)
next
  fix s b assume "tracked tid d n s"
  then show "tracked tid d n (s\<lparr>buffer := b\<rparr>)"
    by (simp add: tracked_def answered_def live_def expired_def)
next
  fix s m assume t: "tracked tid d n s"
  let ?s' = "emit_init m (s\<lparr>initMessage := Some m\<rparr>)"
  from t have n: "n \<le> length (emitted s)" by (simp add: tracked_def)
  have "answered tid n ?s' \<longleftrightarrow> answered tid n s"
    using answered_append [OF n, of ?s' "[EmitInit m]" tid]
    by (simp add: emit_init_def is_marked_def)
  with t show "tracked tid d n ?s'"
    by (simp add: tracked_def live_def expired_def emit_init_def)
next
  fix s m assume "tracked tid d n s"
  then show "tracked tid d n (emit_message m s)"
    by (rule tracked_emit_message)
qed

lemma next_due_run_timers: "next_due (run_timers s) = None"
proof (induction s rule: run_timers.induct)
  case (1 s)
  show ?case
  proof (cases "next_due s")
    case None
    then show ?thesis by (subst run_timers.simps) simp
  next
    case (Some t)
    then show ?thesis using "1.IH" by (subst run_timers.simps) simp
  qed
qed

lemma fold_earliest_due:
  "list_all (\<lambda>x. fst x \<le> c) (t # ts) \<Longrightarrow>
     fst (fold (\<lambda>x best. if fst x < fst best then x else best) ts t) \<le> c"
  by (induction ts arbitrary: t) simp_all

lemma next_due_Some: "next_due s = Some t \<Longrightarrow> fst t \<le> clock s \<and> t \<in> set (timers s)"
proof -
  assume d: "next_due s = Some t"
  then obtain u us where f: "filter (\<lambda>t. fst t \<le> clock s) (timers s) = u # us"
    by (auto simp: next_due_def split: list.splits)
  have "list_all (\<lambda>x. fst x \<le> clock s) (filter (\<lambda>t. fst t \<le> clock s) (timers s))"
    by (simp add: list_all_iff)
  then have "list_all (\<lambda>x. fst x \<le> clock s) (u # us)"
    by (simp only: f)
  then have "fst (fold (\<lambda>x best. if fst x < fst best then x else best) us u) \<le> clock s"
    by (rule fold_earliest_due)
  with d f show ?thesis
    using next_due_in [OF d] by (simp add: next_due_def)
qed

lemma next_due_None: "next_due s = None \<Longrightarrow> list_all (\<lambda>x. clock s < fst x) (timers s)"
  by (auto simp: next_due_def list_all_iff filter_empty_conv split: list.splits)

lemma clock_fire [simp]: "clock (fire cb s) = clock s"
  by (simp add: fire_def settle_command_def settle_wait_def off_message_def
      split: timer_callback.split option.split)

lemma emitted_fire [simp]: "emitted (fire cb s) = emitted s"
  by (simp add: fire_def settle_command_def settle_wait_def off_message_def
      split: timer_callback.split option.split)

lemma clock_run_timers [simp]: "clock (run_timers s) = clock s"
  by (rule run_timers_preserves [where P = "\<lambda>s'. clock s' = clock s"]) simp_all

lemma live_fire_other:
  "live tid d s \<Longrightarrow> snd t \<noteq> CommandTimeout tid \<Longrightarrow>
     live tid d (fire (snd t) (s\<lparr>timers := remove1 t (timers s)\<rparr>))"
  by (auto simp: live_def fire_def settle_command_def settle_wait_def off_message_def
      filter_remove1_other filter_remove_last_other split: timer_callback.split option.split)

lemma live_fire_own:
  assumes "live tid d s" and "t \<in> set (timers s)" and "snd t = CommandTimeout tid"
  shows "expired tid (fire (snd t) (s\<lparr>timers := remove1 t (timers s)\<rparr>)) \<and> fst t = d"
proof -
  from assms(2,3) have "t \<in> set (filter (\<lambda>x. snd x = CommandTimeout tid) (timers s))"
    by simp
  with assms(1) have t: "t = (d, CommandTimeout tid)"
    by (simp add: live_def)
  have "filter (\<lambda>x. snd x = CommandTimeout tid) (remove1 t (timers s)) = []"
    using assms(1) unfolding t live_def by (simp add: filter_single_remove1_pred)
  moreover have "tid \<notin> set (rev (remove1 tid (rev (messageListeners s))))"
    using assms(1) by (simp add: live_def filter_single_remove_last del: set_rev)
  ultimately show ?thesis
    using assms(1) t
    by (simp add: live_def expired_def fire_def settle_command_def off_message_def)
qed

lemma expired_fire:
  "expired tid s \<Longrightarrow> expired tid (fire cb (s\<lparr>timers := remove1 t (timers s)\<rparr>))"
proof -
  assume x: "expired tid s"
  have "filter (\<lambda>x. snd x = CommandTimeout tid) (remove1 t (timers s)) = []"
    using x notin_set_remove1 [of _ "timers s" t] by (auto simp: expired_def filter_empty_conv)
  then show ?thesis
    using x set_remove_last [of _ "messageListeners s"]
    by (auto simp: expired_def fire_def settle_command_def settle_wait_def off_message_def
        split: timer_callback.split option.split)
qed

lemma tracked_elapse: "tracked tid d n s \<Longrightarrow> tracked tid d n (run_timers (s\<lparr>clock := clock s + ms\<rparr>))"
proof (rule run_timers_preserves [where P = "tracked tid d n"])
  assume "tracked tid d n s"
  then show "tracked tid d n (s\<lparr>clock := clock s + ms\<rparr>)"
    by (auto simp: tracked_def answered_def live_def expired_def)
next
  fix s t
  assume t: "tracked tid d n s" and due: "next_due s = Some t"
  let ?s' = "fire (snd t) (s\<lparr>timers := remove1 t (timers s)\<rparr>)"
  have a: "answered tid n ?s' \<longleftrightarrow> answered tid n s"
    by (simp add: answered_def)
  from t consider (a) "answered tid n s" | (l) "live tid d s" | (x) "expired tid s" "d \<le> clock s"
    by (auto simp: tracked_def)
  then have "answered tid n ?s' \<or> live tid d ?s' \<or> (expired tid ?s' \<and> d \<le> clock ?s')"
  proof cases
    case a
    then show ?thesis by (simp add: answered_def)
  next
    case l
    show ?thesis
    proof (cases "snd t = CommandTimeout tid")
      case True
      then show ?thesis
        using live_fire_own [OF l _ True] next_due_Some [OF due] by auto
    next
      case False
      then show ?thesis using l by (simp add: live_fire_other)
    qed
  next
    case x
    then show ?thesis by (simp add: expired_fire)
  qed
  with t show "tracked tid d n ?s'"
    by (simp add: tracked_def)
qed

lemma tracked_sendCommand: "tracked tid d n s \<Longrightarrow> tracked tid d n (snd (sendCommand c s))"
  by (auto simp: tracked_def answered_def live_def expired_def sendCommand_def)

lemma tracked_waitForError: "tracked tid d n s \<Longrightarrow> tracked tid d n (snd (waitForError ms s))"
  by (auto simp: tracked_def answered_def live_def expired_def waitForError_def split: list.split)

lemma tracked_queueError: "tracked tid d n s \<Longrightarrow> tracked tid d n (queueError e s)"
proof -
  assume t: "tracked tid d n s"
  have f: "messageListeners (queueError e s) = messageListeners s"
      "commandPromise (queueError e s) = commandPromise s"
      "transactionId (queueError e s) = transactionId s"
      "clock (queueError e s) = clock s"
      "emitted (queueError e s) = emitted s @ [EmitErrorCaptured e]"
      "filter (\<lambda>x. snd x = CommandTimeout tid) (timers (queueError e s))
         = filter (\<lambda>x. snd x = CommandTimeout tid) (timers s)"
    by (auto simp: queueError_def Let_def invoke_waiter_def settle_wait_def clearTimeout_def
        filter_timers_clear_other split: list.split waiter.split)
  from t have n: "n \<le> length (emitted s)" by (simp add: tracked_def)
  have "answered tid n (queueError e s) \<longleftrightarrow> answered tid n s"
    using answered_append [OF n f(5), of tid] by (simp add: is_marked_def)
  with t show ?thesis
    by (simp add: tracked_def live_def expired_def f)
qed

lemma tracked_step: "tracked tid d n s \<Longrightarrow> tracked tid d n (step ev s)"
proof (cases ev)
  case (Receive data)
  assume "tracked tid d n s"
  then show ?thesis unfolding Receive by (simp add: step_def tracked_handleData)
next
  case (Elapse ms)
  assume "tracked tid d n s"
  then show ?thesis unfolding Elapse by (simp add: step_def tracked_elapse)
next
  case (Send c)
  assume "tracked tid d n s"
  then show ?thesis unfolding Send by (simp add: step_def tracked_sendCommand)
next
  case (QueueError e)
  assume "tracked tid d n s"
  then show ?thesis unfolding QueueError by (simp add: step_def tracked_queueError)
next
  case (WaitForError ms)
  assume "tracked tid d n s"
  then show ?thesis unfolding WaitForError by (simp add: step_def tracked_waitForError)
qed (auto simp: step_def tracked_def answered_def live_def expired_def clearErrorQueue_def)

lemma tracked_run: "tracked tid d n s \<Longrightarrow> tracked tid d n (run evs s)"
  unfolding run_def by (induction evs arbitrary: s) (simp_all add: tracked_step)

lemma list_all_filter: "list_all P xs \<Longrightarrow> list_all P (filter Q xs)"
  by (simp add: list_all_iff)

lemma list_all_remove1: "list_all P xs \<Longrightarrow> list_all P (remove1 x xs)"
  using set_remove1_subset [of x xs] by (auto simp: list_all_iff)

lemma transactionId_handler [simp]: "transactionId (handler x m s) = transactionId s"
  by (simp add: handler_def settle_command_def off_message_def clearTimeout_def)

lemma rested_handler: "rested s \<Longrightarrow> rested (handler x m s)"
  by (simp add: rested_def handler_def settle_command_def off_message_def clearTimeout_def
      list_all_filter)

lemma fresh_handler: "fresh s \<Longrightarrow> fresh (handler x m s)"
  by (simp add: fresh_def handler_def settle_command_def off_message_def clearTimeout_def
      list_all_filter list_all_remove1)

lemma rested_emit_message: "rested s \<Longrightarrow> rested (emit_message m s)"
proof -
  assume "rested s"
  then have "rested (s\<lparr>emitted := emitted s @ [EmitMessage m]\<rparr>)"
    by (simp add: rested_def)
  then show ?thesis
    unfolding emit_message_def by (rule fold_preserves [rotated]) (rule rested_handler)
qed

lemma fresh_emit_message: "fresh s \<Longrightarrow> fresh (emit_message m s)"
proof -
  assume "fresh s"
  then have "fresh (s\<lparr>emitted := emitted s @ [EmitMessage m]\<rparr>)"
    by (simp add: fresh_def)
  then show ?thesis
    unfolding emit_message_def by (rule fold_preserves [rotated]) (rule fresh_handler)
qed

lemma expired_emit_message: "expired tid s \<Longrightarrow> expired tid (emit_message m s)"
proof -
  assume "expired tid s"
  then have "expired tid (s\<lparr>emitted := emitted s @ [EmitMessage m]\<rparr>)"
    by (simp add: expired_def)
  then show ?thesis
    unfolding emit_message_def by (rule fold_preserves [rotated]) (rule expired_handler)
qed

lemma rested_handleData: "rested s \<Longrightarrow> rested (handleData data s)"
  unfolding handleData_def
  by (rule handle_frames_preserves [where P = rested])
     (simp_all add: rested_emit_message, simp_all add: rested_def emit_init_def)

lemma fresh_handleData: "fresh s \<Longrightarrow> fresh (handleData data s)"
  unfolding handleData_def
  by (rule handle_frames_preserves [where P = fresh])
     (simp_all add: fresh_emit_message, simp_all add: fresh_def emit_init_def)

lemma expired_handleData: "expired tid s \<Longrightarrow> expired tid (handleData data s)"
  unfolding handleData_def
  by (rule handle_frames_preserves [where P = "expired tid"])
     (simp_all add: expired_emit_message, simp_all add: expired_def emit_init_def)

lemma clock_handleData [simp]: "clock (handleData data s) = clock s"
  unfolding handleData_def
  by (rule handle_frames_preserves [where P = "\<lambda>s'. clock s' = clock s"])
     (simp_all add: emit_message_def emit_init_def)

lemma rested_elapse: "rested (run_timers s)"
  using next_due_None [OF next_due_run_timers, of s] by (simp add: rested_def)

lemma transactionId_fire [simp]: "transactionId (fire cb s) = transactionId s"
  by (simp add: fire_def settle_command_def settle_wait_def off_message_def
      split: timer_callback.split option.split)

lemma listeners_fire: "messageListeners (fire cb s) = messageListeners s
    \<or> (\<exists>x. messageListeners (fire cb s) = rev (remove1 x (rev (messageListeners s))))"
  by (auto simp: fire_def settle_command_def settle_wait_def off_message_def
      split: timer_callback.split option.split)

lemma fresh_elapse: "fresh s \<Longrightarrow> fresh (run_timers (s\<lparr>clock := clock s + ms\<rparr>))"
proof (rule run_timers_preserves [where P = fresh])
  assume "fresh s"
  then show "fresh (s\<lparr>clock := clock s + ms\<rparr>)"
    by (simp add: fresh_def)
next
  fix s t
  assume f: "fresh s"
  let ?s = "s\<lparr>timers := remove1 t (timers s)\<rparr>"
  from f have "fresh ?s"
    by (simp add: fresh_def list_all_remove1)
  then show "fresh (fire (snd t) ?s)"
    using listeners_fire [of "snd t" ?s]
    by (auto simp: fresh_def list_all_remove1)
qed

lemma expired_elapse: "expired tid s \<Longrightarrow> expired tid (run_timers (s\<lparr>clock := clock s + ms\<rparr>))"
  by (rule run_timers_preserves [where P = "expired tid"])
     (simp_all add: expired_fire, simp add: expired_def)

lemma queueError_frame:
  "messageListeners (queueError e s) = messageListeners s"
  "commandPromise (queueError e s) = commandPromise s"
  "transactionId (queueError e s) = transactionId s"
  "clock (queueError e s) = clock s"
  "timers (queueError e s) = timers s \<or> (\<exists>cb. timers (queueError e s) = filter (\<lambda>t. snd t \<noteq> cb) (timers s))"
  by (auto simp: queueError_def Let_def invoke_waiter_def settle_wait_def clearTimeout_def
      split: list.split waiter.split)

lemma setTimeout_delay_pos: "0 < setTimeout_delay ms"
  by (simp add: setTimeout_delay_def)

lemma rested_step: "rested s \<Longrightarrow> rested (step ev s)"
proof (cases ev)
  case (Receive data)
  assume "rested s"
  then show ?thesis unfolding Receive by (simp add: step_def rested_handleData)
next
  case (Elapse ms)
  show ?thesis unfolding Elapse by (simp add: step_def rested_elapse)
next
  case (QueueError e)
  assume "rested s"
  then show ?thesis
    unfolding QueueError using queueError_frame(4,5) [of e s]
    by (auto simp: step_def rested_def list_all_filter)
next
  case (WaitForError ms)
  assume "rested s"
  then show ?thesis
    unfolding WaitForError using setTimeout_delay_pos [of ms]
    by (auto simp: step_def rested_def waitForError_def list_all_iff split: list.split)
qed (auto simp: step_def rested_def sendCommand_def clearErrorQueue_def)

lemma fresh_step: "fresh s \<Longrightarrow> fresh (step ev s)"
proof (cases ev)
  case (Receive data)
  assume "fresh s"
  then show ?thesis unfolding Receive by (simp add: step_def fresh_handleData)
next
  case (Elapse ms)
  assume "fresh s"
  then show ?thesis unfolding Elapse by (simp add: step_def fresh_elapse)
next
  case (Send c)
  assume "fresh s"
  then show ?thesis
    unfolding Send
    by (auto simp: step_def fresh_def sendCommand_def timer_below_def list_all_iff
        split: timer_callback.splits)
next
  case (QueueError e)
  assume "fresh s"
  then show ?thesis
    unfolding QueueError using queueError_frame(1,3,5) [of e s]
    by (auto simp: step_def fresh_def list_all_filter)
next
  case (WaitForError ms)
  assume "fresh s"
  then show ?thesis
    unfolding WaitForError
    by (auto simp: step_def fresh_def waitForError_def timer_below_def split: list.split)
qed (auto simp: step_def fresh_def clearErrorQueue_def)

lemma expired_step: "expired tid s \<Longrightarrow> expired tid (step ev s)"
proof (cases ev)
  case (Receive data)
  assume "expired tid s"
  then show ?thesis unfolding Receive by (simp add: step_def expired_handleData)
next
  case (Elapse ms)
  assume "expired tid s"
  then show ?thesis unfolding Elapse by (simp add: step_def expired_elapse)
next
  case (QueueError e)
  assume "expired tid s"
  then show ?thesis
    unfolding QueueError using queueError_frame [of e s]
    by (auto simp: step_def expired_def filter_timers_clear_empty)
qed (auto simp: step_def expired_def sendCommand_def waitForError_def clearErrorQueue_def split: list.split)

lemma reachable_rested_fresh: "rested (run evs new_client) \<and> fresh (run evs new_client)"
proof -
  have "rested s \<and> fresh s \<Longrightarrow> rested (fold step evs s) \<and> fresh (fold step evs s)" for s
    by (induction evs arbitrary: s) (simp_all add: rested_step fresh_step)
  moreover have "rested new_client \<and> fresh new_client"
    by (simp add: rested_def fresh_def new_client_def)
  ultimately show ?thesis
    by (simp add: run_def)
qed

lemma expired_run: "expired tid s \<Longrightarrow> expired tid (run evs s)"
  unfolding run_def by (induction evs arbitrary: s) (simp_all add: expired_step)

lemma rested_run: "rested s \<Longrightarrow> rested (run evs s)"
  unfolding run_def by (induction evs arbitrary: s) (simp_all add: rested_step)

lemma clock_step: "clock (step ev s) = clock s + elapsed [ev]"
  by (cases ev)
     (simp_all add: step_def elapsed_def sendCommand_def waitForError_def queueError_frame
        clearErrorQueue_def split: list.split)

lemma clock_run: "clock (run evs s) = clock s + elapsed evs"
proof (induction evs arbitrary: s)
  case Nil
  show ?case by (simp add: run_def elapsed_def)
next
  case (Cons ev evs)
  have "run (ev # evs) s = run evs (step ev s)"
    by (simp add: run_def)
  moreover have "elapsed (ev # evs) = elapsed [ev] + elapsed evs"
    by (simp add: elapsed_def)
  ultimately show ?case
    using Cons.IH [of "step ev s"] by (simp add: clock_step)
qed

lemma live_after_send:
  assumes "fresh s" "socket s" "connected s"
  shows "live (transactionId s) (clock s + 10000) (snd (sendCommand c s))"
proof -
  have "filter (\<lambda>t. t = transactionId s) (messageListeners s) = []"
    using assms(1) by (auto simp: fresh_def list_all_iff filter_empty_conv)
  moreover have "filter (\<lambda>x. snd x = CommandTimeout (transactionId s)) (timers s) = []"
    using assms(1) by (auto simp: fresh_def list_all_iff filter_empty_conv timer_below_def)
  ultimately show ?thesis
    using assms(2,3) by (simp add: live_def sendCommand_def)
qed

text \<open>
  C6. A command is sent on a connected client, in any state the client can reach. As long
  as no message containing its transaction id is emitted, its promise stays pending
  until 10000 ms have passed and is then rejected with \<open>Command timeout\<close>; from then on,
  whatever happens (messages that contain the id included), the promise stays rejected
  and the command's listener is not registered.
\<close>

theorem command_times_out:
  assumes "s = run evs0 new_client" and "socket s" and "connected s"
    and "\<not> answered (transactionId s) (length (emitted (snd (sendCommand c s))))
           (run evs1 (snd (sendCommand c s)))"
  shows "fst (sendCommand c s) = Inr (transactionId s)
    \<and> (elapsed evs1 < 10000 \<longrightarrow>
         commandPromise (run evs1 (snd (sendCommand c s))) (transactionId s) = Some Pending)
    \<and> (10000 \<le> elapsed evs1 \<longrightarrow>
         commandPromise (run (evs1 @ evs2) (snd (sendCommand c s))) (transactionId s)
           = Some (Rejected (js ''Command timeout''))
         \<and> transactionId s \<notin> set (messageListeners (run (evs1 @ evs2) (snd (sendCommand c s)))))"
proof -
  let ?tid = "transactionId s"
  let ?s1 = "snd (sendCommand c s)"
  let ?d = "clock s + 10000"
  let ?s2 = "run evs1 ?s1"
  have rf: "rested s" "fresh s"
    using reachable_rested_fresh [of evs0] assms(1) by simp_all
  have sent: "fst (sendCommand c s) = Inr ?tid" "clock ?s1 = clock s"
    using assms(2,3) by (simp_all add: sendCommand_def)
  have "live ?tid ?d ?s1"
    using rf(2) assms(2,3) by (rule live_after_send)
  then have "tracked ?tid ?d (length (emitted ?s1)) ?s1"
    by (simp add: tracked_def)
  then have "tracked ?tid ?d (length (emitted ?s1)) ?s2"
    by (rule tracked_run)
  with assms(4) have alt: "live ?tid ?d ?s2 \<or> (expired ?tid ?s2 \<and> ?d \<le> clock ?s2)"
    by (simp add: tracked_def)
  have "rested ?s1"
    using rested_step [OF rf(1), of "Send c"] by (simp add: step_def)
  then have r2: "rested ?s2"
    by (rule rested_run)
  have c2: "clock ?s2 = clock s + elapsed evs1"
    by (simp add: clock_run sent(2))
  have early: "clock ?s2 < ?d" if "live ?tid ?d ?s2"
  proof -
    from that have "(?d, CommandTimeout ?tid) \<in> set (filter (\<lambda>x. snd x = CommandTimeout ?tid) (timers ?s2))"
      by (simp add: live_def)
    then have "(?d, CommandTimeout ?tid) \<in> set (timers ?s2)"
      by simp
    with r2 show ?thesis
      by (auto simp: rested_def list_all_iff)
  qed
  have before: "commandPromise ?s2 ?tid = Some Pending" if "elapsed evs1 < 10000"
    using alt that c2 by (auto simp: live_def)
  have after: "commandPromise (run (evs1 @ evs2) ?s1) ?tid = Some (Rejected (js ''Command timeout''))
         \<and> ?tid \<notin> set (messageListeners (run (evs1 @ evs2) ?s1))" if "10000 \<le> elapsed evs1"
  proof -
    from alt that c2 early have "expired ?tid ?s2"
      by auto
    then have "expired ?tid (run evs2 ?s2)"
      by (rule expired_run)
    moreover have "run (evs1 @ evs2) ?s1 = run evs2 ?s2"
      by (simp add: run_def)
    ultimately show ?thesis
      by (simp add: expired_def)
  qed
  from sent(1) before after show ?thesis
    by blast
qed

theorem command_times_out_witness:
  "fst (sendCommand (js ''run'') (run [Connect] new_client)) = Inr 1
   \<and> commandPromise
        (run ([Elapse 4000, Receive (utf8_encode (js ''48'' @ [0] @ response_xml 7 @ [0])), Elapse 6000]
              @ [Receive (utf8_encode (response_xml 1 @ [0]))])
           (snd (sendCommand (js ''run'') (run [Connect] new_client)))) 1
       = Some (Rejected (js ''Command timeout''))
   \<and> 1 \<notin> set (messageListeners
        (run ([Elapse 4000, Receive (utf8_encode (js ''48'' @ [0] @ response_xml 7 @ [0])), Elapse 6000]
              @ [Receive (utf8_encode (response_xml 1 @ [0]))])
           (snd (sendCommand (js ''run'') (run [Connect] new_client)))))"
proof -
  let ?s = "run [Connect] new_client"
  let ?evs1 = "[Elapse 4000, Receive (utf8_encode (js ''48'' @ [0] @ response_xml 7 @ [0])), Elapse 6000]"
  have c: "socket ?s" "connected ?s" and t: "transactionId ?s = 1"
    by (simp_all add: client_eval)
  have q: "\<not> answered (transactionId ?s) (length (emitted (snd (sendCommand (js ''run'') ?s))))
             (run ?evs1 (snd (sendCommand (js ''run'') ?s)))"
    by (simp add: client_eval string_eval answered_def is_marked_def)
  have e: "elapsed ?evs1 = 10000"
    by (simp add: elapsed_def)
  show ?thesis
    using command_times_out [OF refl c q, of "[Receive (utf8_encode (response_xml 1 @ [0]))]"]
    unfolding t e by simp
qed

subsection \<open>Errors handed to waiters\<close>

text \<open>
  C1. An error handed to a pending waiter by \<open>queueError\<close> is not removed from the
  queue: on a new client, a \<open>waitForError\<close> call registers waiter 0; \<open>queueError e\<close>
  resolves it with \<open>e\<close>, and \<open>e\<close> is still in the \<open>getQueuedErrors\<close> snapshot and is
  returned again by the next \<open>waitForError\<close> call.
\<close>

theorem delivered_error_stays_queued:
  "fst (waitForError 30000 new_client) = Inr 0
   \<and> waitPromise (queueError e (snd (waitForError 30000 new_client))) 0 = Some (Resolved (Some e))
   \<and> getQueuedErrors (queueError e (snd (waitForError 30000 new_client))) = [e]
   \<and> fst (waitForError 30000 (queueError e (snd (waitForError 30000 new_client)))) = Inl (Some e)"
  by (simp add: client_eval)

text \<open>
  C7. A waiter whose timeout elapsed is resolved with "no error" but stays in
  \<open>errorWaiters\<close>: the timer callback looks for the promise's \<open>resolve\<close> function, and
  the array holds the arrow function that wraps it. The next error enqueued is handed to
  that stale waiter, so a live waiter registered after it is not notified and times out
  in its turn.
\<close>

theorem timed_out_waiter_stays_registered:
  "waitPromise (run [WaitForError 1000, Elapse 1000] new_client) 0 = Some (Resolved None)
   \<and> errorWaiters (run [WaitForError 1000, Elapse 1000] new_client) = [Notify 0]
   \<and> fst (waitForError 1000 (run [WaitForError 1000, Elapse 1000] new_client)) = Inr 1
   \<and> waitPromise (run [WaitForError 1000, Elapse 1000, WaitForError 1000, QueueError e] new_client) 1
       = Some Pending
   \<and> errorWaiters (run [WaitForError 1000, Elapse 1000, WaitForError 1000, QueueError e] new_client)
       = [Notify 1]
   \<and> waitPromise (run [WaitForError 1000, Elapse 1000, WaitForError 1000, QueueError e, Elapse 1000]
        new_client) 1 = Some (Resolved None)"
  by (simp add: client_eval)

subsection \<open>Frames split between chunks\<close>

lemma handler_buffer_update: "handler tid m (s\<lparr>buffer := b\<rparr>) = (handler tid m s)\<lparr>buffer := b\<rparr>"
  by (simp add: handler_def settle_command_def off_message_def clearTimeout_def)

lemma fold_handler_buffer_update:
  "fold (\<lambda>tid. handler tid m) tids (s\<lparr>buffer := b\<rparr>) = (fold (\<lambda>tid. handler tid m) tids s)\<lparr>buffer := b\<rparr>"
  by (induction tids arbitrary: s) (simp_all add: handler_buffer_update)

lemma emit_message_buffer_update: "emit_message m (s\<lparr>buffer := b\<rparr>) = (emit_message m s)\<lparr>buffer := b\<rparr>"
proof -
  let ?e = "s\<lparr>emitted := emitted s @ [EmitMessage m]\<rparr>"
  have sw: "s\<lparr>buffer := b, emitted := emitted s @ [EmitMessage m]\<rparr> = ?e\<lparr>buffer := b\<rparr>"
    by (cases s) simp
  have "emit_message m (s\<lparr>buffer := b\<rparr>)
      = fold (\<lambda>tid. handler tid m) (messageListeners s) (?e\<lparr>buffer := b\<rparr>)"
    by (simp add: emit_message_def sw)
  also have "\<dots> = (fold (\<lambda>tid. handler tid m) (messageListeners s) ?e)\<lparr>buffer := b\<rparr>"
    by (rule fold_handler_buffer_update)
  finally show ?thesis
    by (simp add: emit_message_def)
qed

lemma indexOf_append: "indexOf c xs = Some i \<Longrightarrow> indexOf c (xs @ ys) = Some i"
  by (induction xs arbitrary: i) (auto split: if_splits)

text \<open>Text appended to the buffer after the loop has run is handled as if it had been there.\<close>

lemma handle_frames_append:
  "handle_frames ((handle_frames s)\<lparr>buffer := buffer (handle_frames s) @ y\<rparr>)
     = handle_frames (s\<lparr>buffer := buffer s @ y\<rparr>)"
proof (induction s rule: handle_frames.induct)
  case (1 s)
  show ?case
  proof (cases "indexOf 0 (buffer s)")
    case None
    then have "handle_frames s = s"
      by (subst handle_frames.simps) simp
    then show ?thesis
      by simp
  next
    case (Some i)
    let ?m = "take i (buffer s)"
    let ?r = "drop (Suc i) (buffer s)"
    have i: "i < length (buffer s)"
      using Some by (rule indexOf_less)
    have app: "indexOf 0 (buffer s @ y) = Some i" "take i (buffer s @ y) = ?m"
        "drop (Suc i) (buffer s @ y) = ?r @ y"
      using Some i by (simp_all add: indexOf_append)
    consider (digits) "is_length_header ?m"
      | (init) "\<not> is_length_header ?m" "str_includes ?m (js ''<init '')"
      | (other) "\<not> is_length_header ?m" "\<not> str_includes ?m (js ''<init '')"
      by blast
    then show ?thesis
    proof cases
      case digits
      let ?s' = "s\<lparr>buffer := ?r\<rparr>"
      have l: "handle_frames s = handle_frames ?s'"
        using Some digits by (subst handle_frames.simps) simp
      have r: "handle_frames (s\<lparr>buffer := buffer s @ y\<rparr>) = handle_frames (?s'\<lparr>buffer := buffer ?s' @ y\<rparr>)"
        using digits by (subst handle_frames.simps) (simp add: app del: take_append drop_append)
      show ?thesis
        unfolding l r using "1.IH"(1) [OF Some digits] by simp
    next
      case init
      let ?s' = "emit_init ?m (s\<lparr>buffer := ?r, initMessage := Some ?m\<rparr>)"
      have l: "handle_frames s = handle_frames ?s'"
        using Some init by (subst handle_frames.simps) simp
      have sw: "s\<lparr>buffer := ?r @ y, initMessage := Some ?m, emitted := emitted s @ [EmitInit ?m]\<rparr>
          = s\<lparr>initMessage := Some ?m, emitted := emitted s @ [EmitInit ?m], buffer := ?r @ y\<rparr>"
        by (cases s) simp
      have r: "handle_frames (s\<lparr>buffer := buffer s @ y\<rparr>) = handle_frames (?s'\<lparr>buffer := buffer ?s' @ y\<rparr>)"
        using init
        by (subst handle_frames.simps) (simp add: app emit_init_def sw del: take_append drop_append)
      show ?thesis
        unfolding l r using "1.IH"(2) [OF Some init] by simp
    next
      case other
      let ?s' = "emit_message ?m (s\<lparr>buffer := ?r\<rparr>)"
      have l: "handle_frames s = handle_frames ?s'"
        using Some other by (subst handle_frames.simps) simp
      have r: "handle_frames (s\<lparr>buffer := buffer s @ y\<rparr>) = handle_frames (?s'\<lparr>buffer := buffer ?s' @ y\<rparr>)"
        using other
        by (subst handle_frames.simps) (simp add: app emit_message_buffer_update del: take_append drop_append)
      show ?thesis
        unfolding l r using "1.IH"(3) [OF Some other] by simp
    qed
  qed
qed

lemma handleData_twice:
  "toString_utf8 (a @ b) = toString_utf8 a @ toString_utf8 b \<Longrightarrow>
     handleData b (handleData a s) = handleData (a @ b) s"
  using handle_frames_append [of "s\<lparr>buffer := buffer s @ toString_utf8 a\<rparr>" "toString_utf8 b"]
  by (simp add: handleData_def)

lemma utf8_decode_ascii:
  "list_all (\<lambda>b. b < 128) data \<Longrightarrow> utf8_decode 0 0 128 191 data = data"
  by (induction data) (simp_all add: utf8_decode.simps)

lemma toString_utf8_ascii: "list_all (\<lambda>b. b < 128) data \<Longrightarrow> toString_utf8 data = data"
proof -
  assume a: "list_all (\<lambda>b. b < 128) data"
  then have "concat (map utf16_units data) = data"
    by (induction data) (simp_all add: utf16_units_def)
  with a show ?thesis
    by (simp add: toString_utf8_def utf8_decode_ascii)
qed

text \<open>
  For ASCII streams the chunking does not matter: feeding the chunks one at a time
  leaves the client in the state that feeding the whole stream leaves it in, emitted
  events included.
\<close>

lemma handleData_ascii_chunks:
  assumes "list_all (list_all (\<lambda>b. b < 128)) (chunk # chunks)"
  shows "fold handleData (chunk # chunks) s = handleData (concat (chunk # chunks)) s"
  using assms
proof (induction chunks arbitrary: chunk)
  case Nil
  then show ?case by simp
next
  case (Cons c cs)
  have "list_all (\<lambda>b. b < 128) (chunk @ c)"
    using Cons.prems by simp
  then have "toString_utf8 (chunk @ c) = toString_utf8 chunk @ toString_utf8 c"
    using Cons.prems by (simp add: toString_utf8_ascii)
  then have "handleData c (handleData chunk s) = handleData (chunk @ c) s"
    by (rule handleData_twice)
  moreover have "fold handleData ((chunk @ c) # cs) s = handleData (concat ((chunk @ c) # cs)) s"
    using Cons.prems by (intro Cons.IH) simp
  ultimately show ?case
    by simp
qed

lemma indexOf_terminator: "c \<notin> set m \<Longrightarrow> indexOf c (m @ c # r) = Some (length m)"
  by (induction m) auto

text \<open>
  A whole frame that arrives while nothing is buffered, and that is neither a length
  header nor an init packet, is emitted as one message event, and nothing stays buffered.
\<close>

lemma handleData_message_frame:
  assumes "buffer s = []" and "toString_utf8 data = m @ [0]" and "0 \<notin> set m"
    and "\<not> is_length_header m" and "\<not> str_includes m (js ''<init '')"
  shows "handleData data s = emit_message m s"
proof -
  have i: "indexOf 0 (m @ [0]) = Some (length m)"
    using assms(3) by (rule indexOf_terminator)
  have e: "s\<lparr>buffer := []\<rparr> = s"
    using assms(1) by (cases s) simp
  have "handle_frames (emit_message m s) = emit_message m s"
    using assms(1) by (subst handle_frames.simps) simp
  then show ?thesis
    using assms(4,5) i
    by (simp add: handleData_def assms(1,2) handle_frames.simps [of "s\<lparr>buffer := m @ [0]\<rparr>"] e)
qed

lemma no_terminator_no_event:
  "indexOf 0 (buffer s @ toString_utf8 data) = None \<Longrightarrow> emitted (handleData data s) = emitted s"
  by (simp add: handleData_def handle_frames.simps)

text \<open>
  C4. The frame \<open>C3 A9 00\<close> (the letter U+00E9 and the terminator) fed in one call emits
  the message U+00E9; fed as the chunks \<open>C3\<close> and \<open>A9 00\<close> it emits a message of two
  replacement characters, because every chunk is decoded on its own.
\<close>

theorem split_character_decodes_differently:
  "emitted (handleData [195, 169, 0] new_client) = [EmitMessage [233]]
   \<and> emitted (handleData [169, 0] (handleData [195] new_client)) = [EmitMessage [65533, 65533]]"
  by (simp add: client_eval string_eval)

subsection \<open>Property values\<close>

text \<open>Whatever the text of a property element is, when it is not empty it is decoded.\<close>

lemma property_variable_decodes:
  "text \<noteq> [] \<Longrightarrow>
     obj_get (property_variable attrs text) (js ''value'') = Some (toString_utf8 (base64_decode text))"
proof -
  have "js ''value'' \<noteq> js ''__proto__''"
    by (simp add: js_def)
  then have "obj_get (obj_set (js ''value'') v obj) (js ''value'') = Some v" for v obj
    by (simp add: obj_set_def obj_get_assign)
  then show "text \<noteq> [] \<Longrightarrow> ?thesis"
    by (simp add: property_variable_def decode_base64_text_def)
qed

text \<open>
  C2. The text of a property element is always decoded as base64: the base64 of
  \<open>hello\<close> gives \<open>hello\<close>, and the text \<open>3.14\<close>, which is not valid base64, gives
  the decoding of its base64 digits \<open>314\<close> (the bytes DF 5E, read as U+FFFD and \<open>^\<close>)
  and not the raw text.
\<close>

theorem invalid_base64_is_decoded:
  "map (\<lambda>v. obj_get v (js ''value''))
     (parseProperties (js ''<property name='' @ quoted (js ''a'') @ js ''>aGVsbG8=</property>''
        @ js ''<property name='' @ quoted (js ''b'') @ js ''>3.14</property>''))
     = [Some (js ''hello''), Some [65533, 94]]"
  by (simp add: string_eval parseProperties_def scan_properties.simps property_variable_def
      parse_attrs_def scan_attrs.simps obj_set_def obj_get_def decode_base64_text_def
      base64_decode_def unbase64_def List.map_filter_def)

section \<open>Properties of the apply-fix action\<close>

lemma starts_with_append: "starts_with (p @ s) p"
  by (induction p) simp_all

lemma str_includes_prefix: "str_includes (p @ s) p"
  by (cases "p @ s") (use starts_with_append [of p s] in auto)

lemma str_includes_skip: "str_includes s p \<Longrightarrow> str_includes (a @ s) p"
  by (induction a) simp_all

lemma str_includes_middle: "str_includes (a @ p @ s) p"
  by (simp add: str_includes_skip str_includes_prefix)

lemma mismatch_shows_both:
  "str_includes (response_text (errorResponse (mismatch_message n original actual))) (quoted (trim original))
   \<and> str_includes (response_text (errorResponse (mismatch_message n original actual))) (quoted (trim actual))"
proof -
  let ?e = "quoted (trim original)" and ?f = "quoted (trim actual)"
  have "response_text (errorResponse (mismatch_message n original actual))
      = (js ''Error: '' @ js ''Line mismatch at '' @ decimal_int n @ js ''.'' @ [10] @ js ''Expected: '')
          @ ?e @ ([10] @ js ''Found: '' @ ?f)"
    by (simp add: errorResponse_def mismatch_message_def quoted_def)
  moreover have "response_text (errorResponse (mismatch_message n original actual))
      = (js ''Error: '' @ js ''Line mismatch at '' @ decimal_int n @ js ''.'' @ [10] @ js ''Expected: ''
           @ ?e @ [10] @ js ''Found: '') @ ?f @ []"
    by (simp add: errorResponse_def mismatch_message_def quoted_def)
  ultimately show ?thesis
    using str_includes_middle by metis
qed

text \<open>
  C3, as the code has it. \<open>apply_fix\<close> changes the file system only when the file can be
  read, the line number is in range and the target line equals the expected original
  after both are trimmed of surrounding white space. On such a match (and when the file
  can be written) the response is a success and the file becomes the lines of the old
  content joined by line feeds, the target line replaced by its own leading white space
  followed by the trimmed replacement, no other line replaced and no other file touched.
  When the line is in range and differs from the expected original after trimming, the
  response is an error whose text shows the trimmed expected and the trimmed actual line
  in double quotes, and the file system is unchanged.
\<close>

theorem applyFix_trimmed_guard:
  "(snd (applyFix path n original replacement fs) \<noteq> fs \<longrightarrow>
      (\<exists>content. readFile path fs = Inr content \<and> fix_matches content n original))
   \<and> (\<forall>content. readFile path fs = Inr content \<and> fix_matches content n original
          \<and> write_error fs path = None \<longrightarrow>
        \<not> isError (fst (applyFix path n original replacement fs))
        \<and> snd (applyFix path n original replacement fs)
            = fs\<lparr>contents := (contents fs)(path := Inr (fixed_content content n replacement))\<rparr>)
   \<and> (\<forall>content. readFile path fs = Inr content \<and> 1 \<le> n \<and> n \<le> int (length (split_lines content))
          \<and> trim (split_lines content ! nat (n - 1)) \<noteq> trim original \<longrightarrow>
        isError (fst (applyFix path n original replacement fs))
        \<and> snd (applyFix path n original replacement fs) = fs
        \<and> str_includes (response_text (fst (applyFix path n original replacement fs)))
             (quoted (trim original))
        \<and> str_includes (response_text (fst (applyFix path n original replacement fs)))
             (quoted (trim (split_lines content ! nat (n - 1)))))"
proof (intro conjI allI impI)
  assume "snd (applyFix path n original replacement fs) \<noteq> fs"
  then show "\<exists>content. readFile path fs = Inr content \<and> fix_matches content n original"
    by (auto simp: applyFix_def fix_matches_def Let_def writeFile_def
        split: sum.splits if_splits option.splits)
next
  fix content
  assume a: "readFile path fs = Inr content \<and> fix_matches content n original \<and> write_error fs path = None"
  then show "\<not> isError (fst (applyFix path n original replacement fs))"
    by (auto simp: applyFix_def fix_matches_def Let_def writeFile_def successResponse_def)
  from a show "snd (applyFix path n original replacement fs)
            = fs\<lparr>contents := (contents fs)(path := Inr (fixed_content content n replacement))\<rparr>"
    by (auto simp: applyFix_def fix_matches_def fixed_content_def Let_def writeFile_def)
next
  fix content
  assume a: "readFile path fs = Inr content \<and> 1 \<le> n \<and> n \<le> int (length (split_lines content))
          \<and> trim (split_lines content ! nat (n - 1)) \<noteq> trim original"
  then have r: "applyFix path n original replacement fs
      = (errorResponse (mismatch_message n original (split_lines content ! nat (n - 1))), fs)"
    by (auto simp: applyFix_def Let_def)
  show "isError (fst (applyFix path n original replacement fs))"
    by (simp add: r errorResponse_def)
  show "snd (applyFix path n original replacement fs) = fs"
    by (simp add: r)
  show "str_includes (response_text (fst (applyFix path n original replacement fs)))
             (quoted (trim original))"
    using mismatch_shows_both by (simp add: r)
  show "str_includes (response_text (fst (applyFix path n original replacement fs)))
             (quoted (trim (split_lines content ! nat (n - 1))))"
    using mismatch_shows_both by (simp add: r)
qed

lemmas fix_eval = sample_fs_def readFile_def writeFile_def applyFix_def fix_matches_def
  fixed_content_def successResponse_def errorResponse_def mismatch_message_def

theorem applyFix_trimmed_guard_witness:
  "fix_matches (js ''x := 1'' @ [13, 10] @ js ''    MsgBox(1)'' @ [10] @ js ''return'') 2 (js ''MsgBox(1)'')
   \<and> \<not> isError (fst (applyFix (js ''a.ahk'') 2 (js ''MsgBox(1)'') (js '' MsgBox(2) '') sample_fs))
   \<and> readFile (js ''a.ahk'') (snd (applyFix (js ''a.ahk'') 2 (js ''MsgBox(1)'') (js '' MsgBox(2) '') sample_fs))
       = Inr (js ''x := 1'' @ [10] @ js ''    MsgBox(2)'' @ [10] @ js ''return'')"
proof -
  let ?c = "js ''x := 1'' @ [13, 10] @ js ''    MsgBox(1)'' @ [10] @ js ''return''"
  have h: "readFile (js ''a.ahk'') sample_fs = Inr ?c \<and> fix_matches ?c 2 (js ''MsgBox(1)'')
      \<and> write_error sample_fs (js ''a.ahk'') = None"
    by (simp add: fix_eval string_eval)
  have f: "fixed_content ?c 2 (js '' MsgBox(2) '') = js ''x := 1'' @ [10] @ js ''    MsgBox(2)'' @ [10] @ js ''return''"
    by (simp add: fix_eval string_eval)
  from applyFix_trimmed_guard [of "js ''a.ahk''" 2 "js ''MsgBox(1)''" "js '' MsgBox(2) ''" sample_fs] h
  have "\<not> isError (fst (applyFix (js ''a.ahk'') 2 (js ''MsgBox(1)'') (js '' MsgBox(2) '') sample_fs))
      \<and> snd (applyFix (js ''a.ahk'') 2 (js ''MsgBox(1)'') (js '' MsgBox(2) '') sample_fs)
          = sample_fs\<lparr>contents := (contents sample_fs)(js ''a.ahk'' := Inr (fixed_content ?c 2 (js '' MsgBox(2) '')))\<rparr>"
    by blast
  with h f show ?thesis
    by (simp add: readFile_def)
qed

text \<open>
  The claim as stated fails where the line matches only after trimming: line 2 of the
  sample file is indented, so it is not exactly \<open>MsgBox(1)\<close>, and the fix is applied.
\<close>

theorem applyFix_exact_match_counterexample:
  "split_lines (js ''x := 1'' @ [13, 10] @ js ''    MsgBox(1)'' @ [10] @ js ''return'') ! 1
     \<noteq> js ''MsgBox(1)''
   \<and> readFile (js ''a.ahk'') sample_fs
       = Inr (js ''x := 1'' @ [13, 10] @ js ''    MsgBox(1)'' @ [10] @ js ''return'')
   \<and> readFile (js ''a.ahk'')
        (snd (applyFix (js ''a.ahk'') 2 (js ''MsgBox(1)'') (js ''MsgBox(2)'') sample_fs))
       = Inr (js ''x := 1'' @ [10] @ js ''    MsgBox(2)'' @ [10] @ js ''return'')"
  by (simp add: fix_eval string_eval)

end
